theory Spec2Isabelle
  imports Complex_Main "HOL-Library.Word" "HOL-Library.Multiset"
begin

section \<open>Data model (order_book.hpp)\<close>

text \<open>
  Quantities and timestamps are \<^verbatim>\<open>uint64_t\<close>: 64-bit words whose arithmetic wraps.
  Prices are \<^verbatim>\<open>double\<close> in the source; the matching code only compares them, so
  they are modelled as reals (NaN is not modelled).
\<close>

type_synonym u64 = "64 word"

datatype OrderSide = Buy | Sell

datatype OrderType = Limit | Market

datatype OrderStatus = New | PartiallyFilled | Filled | Cancelled | Rejected

record Trade =
  order_id_buy :: string
  order_id_sell :: string
  size_t :: u64
  price_t :: real
  timestamp_t :: u64

record Order =
  order_id :: string
  side :: OrderSide
  type_o :: OrderType
  symbol :: string
  size_o :: u64
  filled_size :: u64
  price :: real
  timestamp :: u64
  status :: OrderStatus

text \<open>\<^verbatim>\<open>std::numeric_limits<double>::max()\<close>, the price of a market buy.\<close>

definition dbl_max :: real where
  "dbl_max = 2 ^ 1024 - 2 ^ 971"

text \<open>The two constructors of \<^verbatim>\<open>Order\<close>.\<close>

definition limit_order :: "string \<Rightarrow> OrderSide \<Rightarrow> string \<Rightarrow> u64 \<Rightarrow> real \<Rightarrow> u64 \<Rightarrow> Order" where
  "limit_order oid s smb sz prc time =
     \<lparr>order_id = oid, side = s, type_o = Limit, symbol = smb, size_o = sz,
      filled_size = 0, price = prc, timestamp = time, status = New\<rparr>"

definition market_order :: "string \<Rightarrow> OrderSide \<Rightarrow> string \<Rightarrow> u64 \<Rightarrow> u64 \<Rightarrow> Order" where
  "market_order oid s smb sz time =
     \<lparr>order_id = oid, side = s, type_o = Market, symbol = smb, size_o = sz,
      filled_size = 0, price = (if s = Buy then dbl_max else 0), timestamp = time,
      status = New\<rparr>"

definition remaining_size :: "Order \<Rightarrow> u64" where
  "remaining_size ord = size_o ord - filled_size ord"

definition is_filled :: "Order \<Rightarrow> bool" where
  "is_filled ord \<longleftrightarrow> filled_size ord \<ge> size_o ord"

text \<open>\<^verbatim>\<open>Order::fill\<close>: no check of the quantity, no error path.\<close>

definition fill :: "Order \<Rightarrow> u64 \<Rightarrow> Order" where
  "fill ord fill_size =
     (let ord' = ord\<lparr>filled_size := filled_size ord + fill_size\<rparr>
      in if is_filled ord' then ord'\<lparr>status := Filled\<rparr>
         else ord'\<lparr>status := PartiallyFilled\<rparr>)"

section \<open>Shared order objects\<close>

text \<open>
  Orders are held through \<^verbatim>\<open>std::shared_ptr<Order>\<close>: a side of the book and the id
  index point to the same object, and a fill through one is seen through the other.
  The store maps the address of every order object to its current value.
\<close>

type_synonym addr = nat

type_synonym store = "addr \<Rightarrow> Order"

section \<open>The order book (second revision of order_book.cpp)\<close>

text \<open>
  Modelled from the spec: the declaration of \<^verbatim>\<open>order_map_\<close> that this revision
  is compiled against. The code inserts duplicate ids and walks \<^verbatim>\<open>equal_range\<close>, so
  the index is the \<^verbatim>\<open>std::unordered_multimap\<close> that README.md names.

  The container is part of the C++ library. It keeps the entries of a key that it holds
  in their relative order, also when it rehashes or erases another entry, and it does
  not say where among them \<^verbatim>\<open>insert\<close> links a new entry: behind the older entries of
  the key, between them or in front of them. The multimap is modelled as the list of
  its entries in the order in which the container yields them, and the place of a new
  entry is an input of the call that inserts it, as a clock reading is: \<open>ahead\<close> is the
  number of older entries that the new entry is linked ahead of (\<open>0\<close> links it behind
  all of them), so that every place among the older entries of its key is the result
  of some input. The code reads the index through \<^verbatim>\<open>equal_range\<close> of one key only and
  never walks it, so the order between entries of different keys is not observed.
\<close>

type_synonym ('k, 'v) multimap = "('k \<times> 'v) list"

definition mm_insert :: "nat \<Rightarrow> 'k \<Rightarrow> 'v \<Rightarrow> ('k, 'v) multimap \<Rightarrow> ('k, 'v) multimap" where
  "mm_insert ahead k v m = take (length m - ahead) m @ (k, v) # drop (length m - ahead) m"

text \<open>The values of a key, from \<^verbatim>\<open>equal_range(k).first\<close> on.\<close>

definition equal_range :: "'k \<Rightarrow> ('k, 'v) multimap \<Rightarrow> 'v list" where
  "equal_range k m = map snd (filter (\<lambda>e. fst e = k) m)"

text \<open>Erasing the entry that \<^verbatim>\<open>equal_range(k).first\<close> points to.\<close>

fun mm_erase_first :: "'k \<Rightarrow> ('k, 'v) multimap \<Rightarrow> ('k, 'v) multimap" where
  "mm_erase_first k [] = []"
| "mm_erase_first k (e # m) = (if fst e = k then m else e # mm_erase_first k m)"

text \<open>The members of \<^verbatim>\<open>OrderBook\<close>, written without their trailing underscore.\<close>

record OrderBook =
  symbol_b :: string
  buy_orders :: "addr list"
  sell_orders :: "addr list"
  order_map :: "(string, addr) multimap"
  last_update_time :: u64

definition new_book :: "string \<Rightarrow> OrderBook" where
  "new_book smb =
     \<lparr>symbol_b = smb, buy_orders = [], sell_orders = [], order_map = [],
      last_update_time = 0\<rparr>"

subsection \<open>Sorting a side\<close>

text \<open>The comparison lambdas of \<^verbatim>\<open>sort_buy_orders\<close> and \<^verbatim>\<open>sort_sell_orders\<close>.\<close>

definition buy_before :: "store \<Rightarrow> addr \<Rightarrow> addr \<Rightarrow> bool" where
  "buy_before h a b =
     (if price (h a) \<noteq> price (h b) then price (h a) > price (h b)
      else timestamp (h a) < timestamp (h b))"

definition sell_before :: "store \<Rightarrow> addr \<Rightarrow> addr \<Rightarrow> bool" where
  "sell_before h a b =
     (if price (h a) \<noteq> price (h b) then price (h a) < price (h b)
      else timestamp (h a) < timestamp (h b))"

text \<open>
  \<^verbatim>\<open>std::sort\<close> is part of the C++ library. Called with a comparison that is a strict
  weak ordering, it leaves the range a permutation of what it was, sorted by the
  comparison; the order in which it leaves elements that the comparison does not
  separate is not fixed. The model takes the sort as a parameter \<open>srt\<close> and the two
  guarantees as the predicate \<open>std_sort_contract\<close>.
\<close>

type_synonym sorter = "(addr \<Rightarrow> addr \<Rightarrow> bool) \<Rightarrow> addr list \<Rightarrow> addr list"

definition strict_weak_order :: "('a \<Rightarrow> 'a \<Rightarrow> bool) \<Rightarrow> bool" where
  "strict_weak_order before \<longleftrightarrow>
     (\<forall>a b. before a b \<longrightarrow> \<not> before b a) \<and>
     (\<forall>a b c. \<not> before b a \<and> \<not> before c b \<longrightarrow> \<not> before c a)"

definition std_sort_contract :: "sorter \<Rightarrow> bool" where
  "std_sort_contract srt \<longleftrightarrow>
     (\<forall>before xs. strict_weak_order before \<longrightarrow>
        mset (srt before xs) = mset xs \<and>
        sorted_wrt (\<lambda>a b. \<not> before b a) (srt before xs))"

text \<open>
  One sort that meets the contract, used where a call is evaluated: an insertion sort,
  which places an element behind the elements that it does not precede and so keeps
  tied elements in their order.
\<close>

fun place :: "('a \<Rightarrow> 'a \<Rightarrow> bool) \<Rightarrow> 'a \<Rightarrow> 'a list \<Rightarrow> 'a list" where
  "place before x [] = [x]"
| "place before x (y # ys) =
     (if before x y then x # y # ys else y # place before x ys)"

definition stable_sort :: "('a \<Rightarrow> 'a \<Rightarrow> bool) \<Rightarrow> 'a list \<Rightarrow> 'a list" where
  "stable_sort before xs = foldl (\<lambda>acc x. place before x acc) [] xs"

definition sort_buy_orders :: "sorter \<Rightarrow> store \<Rightarrow> OrderBook \<Rightarrow> OrderBook" where
  "sort_buy_orders srt h b = b\<lparr>buy_orders := srt (buy_before h) (buy_orders b)\<rparr>"

definition sort_sell_orders :: "sorter \<Rightarrow> store \<Rightarrow> OrderBook \<Rightarrow> OrderBook" where
  "sort_sell_orders srt h b = b\<lparr>sell_orders := srt (sell_before h) (sell_orders b)\<rparr>"

subsection \<open>add_order, cancel_order\<close>

text \<open>
  Clock readings are inputs: \<open>now\<close> is what the system clock returns during the call.
  So is \<open>ahead\<close>, the place at which the id index links the new entry.
\<close>

definition add_order :: "sorter \<Rightarrow> nat \<Rightarrow> store \<Rightarrow> OrderBook \<Rightarrow> addr \<Rightarrow> u64 \<Rightarrow> OrderBook" where
  "add_order srt ahead h b ord now =
     (let b1 = b\<lparr>order_map := mm_insert ahead (order_id (h ord)) ord (order_map b)\<rparr>;
          b2 = (if side (h ord) = Buy
                then sort_buy_orders srt h (b1\<lparr>buy_orders := buy_orders b1 @ [ord]\<rparr>)
                else sort_sell_orders srt h (b1\<lparr>sell_orders := sell_orders b1 @ [ord]\<rparr>))
      in b2\<lparr>last_update_time := now\<rparr>)"

text \<open>
  \<^verbatim>\<open>find_if\<close> on the pointer followed by \<^verbatim>\<open>erase\<close> removes the first occurrence
  of the address, and nothing when it does not occur: \<open>remove1\<close>.
\<close>

definition cancel_order :: "store \<Rightarrow> OrderBook \<Rightarrow> string \<Rightarrow> u64 \<Rightarrow> store \<times> OrderBook \<times> bool" where
  "cancel_order h b oid now =
     (case equal_range oid (order_map b) of
        [] \<Rightarrow> (h, b, False)
      | ord # _ \<Rightarrow>
          (let h' = h(ord := (h ord)\<lparr>status := Cancelled\<rparr>);
               b1 = (if side (h' ord) = Buy
                     then b\<lparr>buy_orders := remove1 ord (buy_orders b)\<rparr>
                     else b\<lparr>sell_orders := remove1 ord (sell_orders b)\<rparr>);
               b2 = b1\<lparr>order_map := mm_erase_first oid (order_map b1)\<rparr>
           in (h', b2\<lparr>last_update_time := now\<rparr>, True)))"

subsection \<open>match_order\<close>

definition opposite_side :: "store \<Rightarrow> OrderBook \<Rightarrow> addr \<Rightarrow> addr list" where
  "opposite_side h b ord = (if side (h ord) = Buy then sell_orders b else buy_orders b)"

definition price_matches :: "store \<Rightarrow> addr \<Rightarrow> addr \<Rightarrow> bool" where
  "price_matches h ord match_ord =
     (if side (h ord) = Buy then price (h ord) \<ge> price (h match_ord)
      else price (h ord) \<le> price (h match_ord))"

text \<open>The loop continues into its body and does not \<^verbatim>\<open>break\<close>.\<close>

definition crosses :: "store \<Rightarrow> OrderBook \<Rightarrow> addr \<Rightarrow> bool" where
  "crosses h b ord \<longleftrightarrow>
     opposite_side h b ord \<noteq> [] \<and> \<not> is_filled (h ord) \<and>
     (type_o (h ord) = Market \<or> price_matches h ord (hd (opposite_side h b ord)))"

text \<open>Dropping the head of the contra side, and the index entry with the same pointer.\<close>

definition remove_head :: "store \<Rightarrow> OrderBook \<Rightarrow> addr \<Rightarrow> addr \<Rightarrow> OrderBook" where
  "remove_head h b ord match_ord =
     (let b1 = (if side (h ord) = Buy then b\<lparr>sell_orders := tl (sell_orders b)\<rparr>
                else b\<lparr>buy_orders := tl (buy_orders b)\<rparr>)
      in b1\<lparr>order_map := remove1 (order_id (h match_ord), match_ord) (order_map b1)\<rparr>)"

text \<open>One pass through the body of the loop, entered when \<open>crosses\<close> holds.\<close>

definition match_body :: "store \<Rightarrow> OrderBook \<Rightarrow> addr \<Rightarrow> u64 \<Rightarrow> store \<times> OrderBook \<times> Trade" where
  "match_body h b ord now =
     (let match_ord = hd (opposite_side h b ord);
          fill_size = min (remaining_size (h ord)) (remaining_size (h match_ord));
          trade_price = price (h match_ord);
          h1 = h(ord := fill (h ord) fill_size);
          h2 = h1(match_ord := fill (h1 match_ord) fill_size);
          trade = (if side (h2 ord) = Buy
                   then \<lparr>order_id_buy = order_id (h2 ord), order_id_sell = order_id (h2 match_ord),
                         size_t = fill_size, price_t = trade_price, timestamp_t = now\<rparr>
                   else \<lparr>order_id_buy = order_id (h2 match_ord), order_id_sell = order_id (h2 ord),
                         size_t = fill_size, price_t = trade_price, timestamp_t = now\<rparr>);
          b' = (if is_filled (h2 match_ord) then remove_head h2 b ord match_ord else b)
      in (h2, b', trade))"

text \<open>
  The \<^verbatim>\<open>while\<close> loop. It need not end when the incoming order is itself the head of
  the contra side, so not returning is the value \<open>None\<close>.
\<close>

partial_function (option) match_loop ::
  "store \<Rightarrow> OrderBook \<Rightarrow> addr \<Rightarrow> u64 \<Rightarrow> Trade list \<Rightarrow> (store \<times> OrderBook \<times> Trade list) option" where
  "match_loop h b ord now trades =
     (if crosses h b ord
      then (case match_body h b ord now of
              (h', b', trade) \<Rightarrow> match_loop h' b' ord now (trades @ [trade]))
      else Some (h, b, trades))"

definition match_order ::
  "store \<Rightarrow> OrderBook \<Rightarrow> addr \<Rightarrow> u64 \<Rightarrow> (store \<times> OrderBook \<times> Trade list) option" where
  "match_order h b ord now =
     (case match_loop h b ord now [] of
        None \<Rightarrow> None
      | Some (h', b', trades) \<Rightarrow> Some (h', b'\<lparr>last_update_time := now\<rparr>, trades))"

section \<open>The matching engine (second revision of matching_engine.cpp)\<close>

text \<open>
  The members \<^verbatim>\<open>order_books_\<close>, \<^verbatim>\<open>order_id_to_symbol_\<close> and \<^verbatim>\<open>trade_callbacks_\<close>,
  together with what the engine acts on: the store of order objects, the next unused
  address (\<^verbatim>\<open>std::make_shared\<close> returns a new object) and the calls made to the
  observers so far. An observer is known by its position in \<^verbatim>\<open>trade_callbacks_\<close>;
  a call is the pair of that position and the trade passed.
  The id index \<^verbatim>\<open>order_id_to_symbol_\<close> is an \<^verbatim>\<open>unordered_multimap\<close>
  (matching_engine.hpp), modelled as the index of the book is.
  The mutex is not modelled: every operation runs alone, from start to end.
\<close>

record MatchingEngine =
  order_books :: "string \<rightharpoonup> OrderBook"
  order_id_to_symbol :: "(string, string) multimap"
  trade_callbacks :: nat
  objects :: store
  next_addr :: addr
  delivered :: "(nat \<times> Trade) list"

definition new_engine :: MatchingEngine where
  "new_engine =
     \<lparr>order_books = Map.empty, order_id_to_symbol = [], trade_callbacks = 0,
      objects = (\<lambda>_. limit_order [] Buy [] 0 0 0), next_addr = 0, delivered = []\<rparr>"

definition add_order_book :: "MatchingEngine \<Rightarrow> string \<Rightarrow> MatchingEngine" where
  "add_order_book e smb =
     (if order_books e smb \<noteq> None then e
      else e\<lparr>order_books := (order_books e)(smb \<mapsto> new_book smb)\<rparr>)"

definition register_trade_callback :: "MatchingEngine \<Rightarrow> MatchingEngine" where
  "register_trade_callback e = e\<lparr>trade_callbacks := Suc (trade_callbacks e)\<rparr>"

definition notify_trade :: "MatchingEngine \<Rightarrow> Trade \<Rightarrow> MatchingEngine" where
  "notify_trade e trade =
     e\<lparr>delivered := delivered e @ map (\<lambda>i. (i, trade)) [0..<trade_callbacks e]\<rparr>"

text \<open>
  \<open>ts\<close> is the reading of \<^verbatim>\<open>generate_timestamp()\<close>, \<open>now\<close> the reading of the clock
  inside the book; \<open>ia\<close> and \<open>ba\<close> are the places at which the id index of the engine
  and the id index of the book link their new entry.
\<close>

definition place_limit_order ::
  "sorter \<Rightarrow> nat \<Rightarrow> nat \<Rightarrow> MatchingEngine \<Rightarrow> string \<Rightarrow> string \<Rightarrow> OrderSide \<Rightarrow> u64 \<Rightarrow> real \<Rightarrow>
     u64 \<Rightarrow> u64 \<Rightarrow> (MatchingEngine \<times> Trade list) option" where
  "place_limit_order srt ia ba e smb oid sd sz prc ts now =
     (case order_books e smb of
        None \<Rightarrow> Some (e, [])
      | Some book \<Rightarrow>
          (let ord = next_addr e;
               h = (objects e)(ord := limit_order oid sd smb sz prc ts);
               e1 = e\<lparr>objects := h, next_addr := Suc ord,
                      order_id_to_symbol := mm_insert ia oid smb (order_id_to_symbol e)\<rparr>
           in case match_order h book ord now of
                None \<Rightarrow> None
              | Some (h1, book1, trades) \<Rightarrow>
                  (let book2 = (if \<not> is_filled (h1 ord) then add_order srt ba h1 book1 ord now
                                else book1);
                       e2 = e1\<lparr>objects := h1, order_books := (order_books e1)(smb \<mapsto> book2)\<rparr>
                   in Some (foldl notify_trade e2 trades, trades))))"

definition place_market_order ::
  "MatchingEngine \<Rightarrow> string \<Rightarrow> string \<Rightarrow> OrderSide \<Rightarrow> u64 \<Rightarrow> u64 \<Rightarrow> u64 \<Rightarrow>
     (MatchingEngine \<times> Trade list) option" where
  "place_market_order e smb oid sd sz ts now =
     (case order_books e smb of
        None \<Rightarrow> Some (e, [])
      | Some book \<Rightarrow>
          (let ord = next_addr e;
               h = (objects e)(ord := market_order oid sd smb sz ts);
               e1 = e\<lparr>objects := h, next_addr := Suc ord\<rparr>
           in case match_order h book ord now of
                None \<Rightarrow> None
              | Some (h1, book1, trades) \<Rightarrow>
                  (let e2 = e1\<lparr>objects := h1, order_books := (order_books e1)(smb \<mapsto> book1)\<rparr>
                   in Some (foldl notify_trade e2 trades, trades))))"

text \<open>
  \<^verbatim>\<open>MatchingEngine::cancel_order\<close>. The book is changed in place by its own
  \<^verbatim>\<open>cancel_order\<close>, whatever that returns.
\<close>

definition engine_cancel_order :: "MatchingEngine \<Rightarrow> string \<Rightarrow> u64 \<Rightarrow> MatchingEngine \<times> bool" where
  "engine_cancel_order e oid now =
     (case equal_range oid (order_id_to_symbol e) of
        [] \<Rightarrow> (e, False)
      | smb # _ \<Rightarrow>
          (case order_books e smb of
             None \<Rightarrow> (e, False)
           | Some book \<Rightarrow>
               (case cancel_order (objects e) book oid now of
                  (h', book', success) \<Rightarrow>
                    (let e1 = e\<lparr>objects := h', order_books := (order_books e)(smb \<mapsto> book')\<rparr>
                     in if success
                        then (e1\<lparr>order_id_to_symbol :=
                                    mm_erase_first oid (order_id_to_symbol e1)\<rparr>, True)
                        else (e1, False)))))"

definition get_order_book :: "MatchingEngine \<Rightarrow> string \<Rightarrow> OrderBook option" where
  "get_order_book e smb = order_books e smb"

text \<open>Reading the result of a call on the engine.\<close>

definition engine_after :: "(MatchingEngine \<times> Trade list) option \<Rightarrow> MatchingEngine" where
  "engine_after r = fst (the r)"

definition trades_of :: "(MatchingEngine \<times> Trade list) option \<Rightarrow> Trade list" where
  "trades_of r = snd (the r)"

definition book_of :: "MatchingEngine \<Rightarrow> string \<Rightarrow> OrderBook" where
  "book_of e smb = the (order_books e smb)"

section \<open>The first revision of the book and the engine\<close>

text \<open>
  The source holds an earlier revision of order_book.cpp and matching_engine.cpp. Its
  id index \<^verbatim>\<open>order_map_\<close> is the \<^verbatim>\<open>unordered_map\<close> that order_book.hpp declares: one
  entry per id, overwritten by \<^verbatim>\<open>order_map_[id] = order\<close>. \<^verbatim>\<open>match_order\<close> appends the
  rest of a limit order itself and then sweeps the filled orders out of both sides.
  The members carry the suffix 1. The comparison lambdas of its two sort functions
  test \<^verbatim>\<open>lhs->price == rhs->price\<close> first; they are the same relations as
  \<open>buy_before\<close> and \<open>sell_before\<close>.
\<close>

record OrderBook1 =
  symbol_b1 :: string
  buy_orders1 :: "addr list"
  sell_orders1 :: "addr list"
  order_map1 :: "string \<rightharpoonup> addr"
  last_update_time1 :: u64

definition new_book1 :: "string \<Rightarrow> OrderBook1" where
  "new_book1 smb =
     \<lparr>symbol_b1 = smb, buy_orders1 = [], sell_orders1 = [], order_map1 = Map.empty,
      last_update_time1 = 0\<rparr>"

definition add_order1 :: "sorter \<Rightarrow> store \<Rightarrow> OrderBook1 \<Rightarrow> addr \<Rightarrow> u64 \<Rightarrow> OrderBook1" where
  "add_order1 srt h b ord now =
     (let b1 = b\<lparr>order_map1 := (order_map1 b)(order_id (h ord) \<mapsto> ord)\<rparr>;
          b2 = (if side (h ord) = Buy
                then b1\<lparr>buy_orders1 := srt (buy_before h) (buy_orders1 b1 @ [ord])\<rparr>
                else b1\<lparr>sell_orders1 := srt (sell_before h) (sell_orders1 b1 @ [ord])\<rparr>)
      in b2\<lparr>last_update_time1 := now\<rparr>)"

text \<open>\<^verbatim>\<open>remove_if\<close> on the id takes every order with that id off the side.\<close>

definition cancel_order1 ::
  "store \<Rightarrow> OrderBook1 \<Rightarrow> string \<Rightarrow> u64 \<Rightarrow> store \<times> OrderBook1 \<times> bool" where
  "cancel_order1 h b oid now =
     (case order_map1 b oid of
        None \<Rightarrow> (h, b, False)
      | Some ord \<Rightarrow>
          (let h' = h(ord := (h ord)\<lparr>status := Cancelled\<rparr>);
               b1 = (if side (h' ord) = Buy
                     then b\<lparr>buy_orders1 := filter (\<lambda>a. order_id (h' a) \<noteq> oid) (buy_orders1 b)\<rparr>
                     else b\<lparr>sell_orders1 := filter (\<lambda>a. order_id (h' a) \<noteq> oid) (sell_orders1 b)\<rparr>);
               b2 = b1\<lparr>order_map1 := (order_map1 b1)(oid := None)\<rparr>
           in (h', b2\<lparr>last_update_time1 := now\<rparr>, True)))"

definition opposite_side1 :: "store \<Rightarrow> OrderBook1 \<Rightarrow> addr \<Rightarrow> addr list" where
  "opposite_side1 h b ord = (if side (h ord) = Buy then sell_orders1 b else buy_orders1 b)"

definition crosses1 :: "store \<Rightarrow> OrderBook1 \<Rightarrow> addr \<Rightarrow> bool" where
  "crosses1 h b ord \<longleftrightarrow>
     opposite_side1 h b ord \<noteq> [] \<and> \<not> is_filled (h ord) \<and>
     (type_o (h ord) = Market \<or> price_matches h ord (hd (opposite_side1 h b ord)))"

definition match_body1 :: "store \<Rightarrow> OrderBook1 \<Rightarrow> addr \<Rightarrow> u64 \<Rightarrow> store \<times> OrderBook1 \<times> Trade" where
  "match_body1 h b ord now =
     (let match_ord = hd (opposite_side1 h b ord);
          fill_size = min (remaining_size (h ord)) (remaining_size (h match_ord));
          trade_price = price (h match_ord);
          h1 = h(ord := fill (h ord) fill_size);
          h2 = h1(match_ord := fill (h1 match_ord) fill_size);
          trade = (if side (h2 ord) = Buy
                   then \<lparr>order_id_buy = order_id (h2 ord), order_id_sell = order_id (h2 match_ord),
                         size_t = fill_size, price_t = trade_price, timestamp_t = now\<rparr>
                   else \<lparr>order_id_buy = order_id (h2 match_ord), order_id_sell = order_id (h2 ord),
                         size_t = fill_size, price_t = trade_price, timestamp_t = now\<rparr>);
          b' = (if is_filled (h2 match_ord)
                then (if side (h2 ord) = Buy then b\<lparr>sell_orders1 := tl (sell_orders1 b)\<rparr>
                      else b\<lparr>buy_orders1 := tl (buy_orders1 b)\<rparr>)
                else b)
      in (h2, b', trade))"

partial_function (option) match_loop1 ::
  "store \<Rightarrow> OrderBook1 \<Rightarrow> addr \<Rightarrow> u64 \<Rightarrow> Trade list \<Rightarrow> (store \<times> OrderBook1 \<times> Trade list) option" where
  "match_loop1 h b ord now trades =
     (if crosses1 h b ord
      then (case match_body1 h b ord now of
              (h', b', trade) \<Rightarrow> match_loop1 h' b' ord now (trades @ [trade]))
      else Some (h, b, trades))"

definition remove_filled_orders1 :: "store \<Rightarrow> OrderBook1 \<Rightarrow> OrderBook1" where
  "remove_filled_orders1 h b =
     b\<lparr>buy_orders1 := filter (\<lambda>a. \<not> is_filled (h a)) (buy_orders1 b),
       sell_orders1 := filter (\<lambda>a. \<not> is_filled (h a)) (sell_orders1 b)\<rparr>"

definition match_order1 ::
  "sorter \<Rightarrow> store \<Rightarrow> OrderBook1 \<Rightarrow> addr \<Rightarrow> u64 \<Rightarrow> (store \<times> OrderBook1 \<times> Trade list) option" where
  "match_order1 srt h b ord now =
     (case match_loop1 h b ord now [] of
        None \<Rightarrow> None
      | Some (h', b', trades) \<Rightarrow>
          (let b1 = (if \<not> is_filled (h' ord) \<and> type_o (h' ord) = Limit
                     then add_order1 srt h' b' ord now else b')
           in Some (h', remove_filled_orders1 h' b1, trades)))"

text \<open>
  The engine of that revision (src/matching_engine.cpp). Modelled from the spec: the
  declaration of \<^verbatim>\<open>order_id_to_symbol_\<close> that this revision is compiled against. The
  code writes \<^verbatim>\<open>order_id_to_symbol_[order_id] = symbol\<close>, which only a map with one
  entry per id offers, so the id index holds one symbol per id.
\<close>

record MatchingEngine1 =
  order_books1 :: "string \<rightharpoonup> OrderBook1"
  order_id_to_symbol1 :: "string \<rightharpoonup> string"
  trade_callbacks1 :: nat
  objects1 :: store
  next_addr1 :: addr
  delivered1 :: "(nat \<times> Trade) list"

definition notify_trade1 :: "MatchingEngine1 \<Rightarrow> Trade \<Rightarrow> MatchingEngine1" where
  "notify_trade1 e trade =
     e\<lparr>delivered1 := delivered1 e @ map (\<lambda>i. (i, trade)) [0..<trade_callbacks1 e]\<rparr>"

definition place_limit_order1 ::
  "sorter \<Rightarrow> MatchingEngine1 \<Rightarrow> string \<Rightarrow> string \<Rightarrow> OrderSide \<Rightarrow> u64 \<Rightarrow> real \<Rightarrow> u64 \<Rightarrow> u64 \<Rightarrow>
     (MatchingEngine1 \<times> Trade list) option" where
  "place_limit_order1 srt e smb oid sd sz prc ts now =
     (case order_books1 e smb of
        None \<Rightarrow> Some (e, [])
      | Some book \<Rightarrow>
          (let ord = next_addr1 e;
               h = (objects1 e)(ord := limit_order oid sd smb sz prc ts);
               e1 = e\<lparr>objects1 := h, next_addr1 := Suc ord,
                      order_id_to_symbol1 := (order_id_to_symbol1 e)(oid \<mapsto> smb)\<rparr>
           in case match_order1 srt h book ord now of
                None \<Rightarrow> None
              | Some (h1, book1, trades) \<Rightarrow>
                  (let e2 = e1\<lparr>objects1 := h1, order_books1 := (order_books1 e1)(smb \<mapsto> book1)\<rparr>
                   in Some (foldl notify_trade1 e2 trades, trades))))"

definition place_market_order1 ::
  "sorter \<Rightarrow> MatchingEngine1 \<Rightarrow> string \<Rightarrow> string \<Rightarrow> OrderSide \<Rightarrow> u64 \<Rightarrow> u64 \<Rightarrow> u64 \<Rightarrow>
     (MatchingEngine1 \<times> Trade list) option" where
  "place_market_order1 srt e smb oid sd sz ts now =
     (case order_books1 e smb of
        None \<Rightarrow> Some (e, [])
      | Some book \<Rightarrow>
          (let ord = next_addr1 e;
               h = (objects1 e)(ord := market_order oid sd smb sz ts);
               e1 = e\<lparr>objects1 := h, next_addr1 := Suc ord,
                      order_id_to_symbol1 := (order_id_to_symbol1 e)(oid \<mapsto> smb)\<rparr>
           in case match_order1 srt h book ord now of
                None \<Rightarrow> None
              | Some (h1, book1, trades) \<Rightarrow>
                  (let e2 = e1\<lparr>objects1 := h1, order_books1 := (order_books1 e1)(smb \<mapsto> book1)\<rparr>;
                       e3 = foldl notify_trade1 e2 trades
                   in Some (e3\<lparr>order_id_to_symbol1 := (order_id_to_symbol1 e3)(oid := None)\<rparr>,
                            trades))))"

definition engine_cancel_order1 ::
  "MatchingEngine1 \<Rightarrow> string \<Rightarrow> u64 \<Rightarrow> MatchingEngine1 \<times> bool" where
  "engine_cancel_order1 e oid now =
     (case order_id_to_symbol1 e oid of
        None \<Rightarrow> (e, False)
      | Some smb \<Rightarrow>
          (case order_books1 e smb of
             None \<Rightarrow> (e, False)
           | Some book \<Rightarrow>
               (case cancel_order1 (objects1 e) book oid now of
                  (h', book', success) \<Rightarrow>
                    (let e1 = e\<lparr>objects1 := h', order_books1 := (order_books1 e)(smb \<mapsto> book')\<rparr>
                     in if success
                        then (e1\<lparr>order_id_to_symbol1 := (order_id_to_symbol1 e1)(oid := None)\<rparr>, True)
                        else (e1, False)))))"

definition engine_after1 :: "(MatchingEngine1 \<times> Trade list) option \<Rightarrow> MatchingEngine1" where
  "engine_after1 r = fst (the r)"

definition trades_of1 :: "(MatchingEngine1 \<times> Trade list) option \<Rightarrow> Trade list" where
  "trades_of1 r = snd (the r)"

definition book_of1 :: "MatchingEngine1 \<Rightarrow> string \<Rightarrow> OrderBook1" where
  "book_of1 e smb = the (order_books1 e smb)"

section \<open>Well-formed books and sequences of operations\<close>

definition resting :: "OrderBook \<Rightarrow> addr list" where
  "resting b = buy_orders b @ sell_orders b"

text \<open>
  What every book built by \<open>add_order\<close>, \<open>cancel_order\<close> and \<open>match_order\<close> satisfies:
  no object rests twice, the index holds exactly the resting objects, each once and
  under its own id, each object rests on the side its \<open>side\<close> field names, no resting
  order is filled, and either side is ordered by its comparison.
\<close>

definition book_inv :: "store \<Rightarrow> OrderBook \<Rightarrow> bool" where
  "book_inv h b \<longleftrightarrow>
     distinct (resting b) \<and>
     distinct (map snd (order_map b)) \<and>
     snd ` set (order_map b) = set (resting b) \<and>
     (\<forall>e \<in> set (order_map b). fst e = order_id (h (snd e))) \<and>
     (\<forall>a \<in> set (buy_orders b). side (h a) = Buy) \<and>
     (\<forall>a \<in> set (sell_orders b). side (h a) \<noteq> Buy) \<and>
     (\<forall>a \<in> set (resting b). \<not> is_filled (h a)) \<and>
     sorted_wrt (\<lambda>x y. \<not> buy_before h y x) (buy_orders b) \<and>
     sorted_wrt (\<lambda>x y. \<not> sell_before h y x) (sell_orders b)"

text \<open>The quantity that decreases with every pass through the matching loop.\<close>

definition loop_measure :: "store \<Rightarrow> OrderBook \<Rightarrow> addr \<Rightarrow> nat" where
  "loop_measure h b ord = length (opposite_side h b ord) + (if is_filled (h ord) then 0 else 1)"

text \<open>
  The quantity executed by a list of trades, and what one run of the matching loop does
  to the quantities: the run starts in the store \<open>h\<close> with the contra side \<open>c\<close>, ends in
  the store \<open>h'\<close> and emits the trades \<open>ts\<close>.
\<close>

definition taken :: "Trade list \<Rightarrow> nat" where
  "taken ts = sum_list (map (\<lambda>t. unat (size_t t)) ts)"

definition fills_from :: "store \<Rightarrow> addr list \<Rightarrow> addr \<Rightarrow> store \<Rightarrow> Trade list \<Rightarrow> bool" where
  "fills_from h c ord h' ts \<longleftrightarrow>
     length ts \<le> length c \<and>
     (\<forall>i < length ts.
        unat (size_t (ts ! i)) =
          min (unat (remaining_size (h ord)) - taken (take i ts))
              (unat (remaining_size (h (c ! i)))) \<and>
        price_t (ts ! i) = price (h (c ! i)) \<and>
        unat (remaining_size (h' (c ! i))) =
          unat (remaining_size (h (c ! i))) - unat (size_t (ts ! i))) \<and>
     taken ts \<le> unat (remaining_size (h ord)) \<and>
     unat (remaining_size (h' ord)) = unat (remaining_size (h ord)) - taken ts \<and>
     (\<forall>a. a \<noteq> ord \<and> a \<notin> set (take (length ts) c) \<longrightarrow> h' a = h a)"

text \<open>Stores that agree on everything but the filled quantity and the status.\<close>

definition same_static :: "store \<Rightarrow> store \<Rightarrow> bool" where
  "same_static h h' \<longleftrightarrow>
     (\<forall>a. order_id (h' a) = order_id (h a) \<and> side (h' a) = side (h a) \<and>
          type_o (h' a) = type_o (h a) \<and> size_o (h' a) = size_o (h a) \<and>
          price (h' a) = price (h a) \<and> timestamp (h' a) = timestamp (h a))"

text \<open>The book without one resting object and its index entry.\<close>

definition book_remove :: "OrderBook \<Rightarrow> string \<Rightarrow> addr \<Rightarrow> OrderBook" where
  "book_remove b k m =
     b\<lparr>buy_orders := remove1 m (buy_orders b), sell_orders := remove1 m (sell_orders b),
       order_map := remove1 (k, m) (order_map b)\<rparr>"

text \<open>
  A caller of the book: a sequence of calls, each on an order object of the store and
  with the readings and the place in the index that it meets.
  The calls that the contract of the book excludes end the run with \<open>Misuse\<close>:
  adding an object that already rests or that has nothing left to fill, and matching
  an object that rests in the book. \<open>Diverges\<close> is a matching loop that does not return.
\<close>

datatype book_op = Add addr nat u64 | Cancel string u64 | Match addr u64

datatype 'a outcome = Finished 'a | Misuse | Diverges

fun apply_op :: "sorter \<Rightarrow> store \<times> OrderBook \<Rightarrow> book_op \<Rightarrow> (store \<times> OrderBook) outcome" where
  "apply_op srt (h, b) (Add ord ahead now) =
     (if ord \<in> set (resting b) \<or> is_filled (h ord) then Misuse
      else Finished (h, add_order srt ahead h b ord now))"
| "apply_op srt (h, b) (Cancel oid now) =
     (case cancel_order h b oid now of (h', b', _) \<Rightarrow> Finished (h', b'))"
| "apply_op srt (h, b) (Match ord now) =
     (if ord \<in> set (resting b) then Misuse
      else case match_order h b ord now of
             None \<Rightarrow> Diverges
           | Some (h', b', _) \<Rightarrow> Finished (h', b'))"

fun run_ops :: "sorter \<Rightarrow> store \<times> OrderBook \<Rightarrow> book_op list \<Rightarrow> (store \<times> OrderBook) outcome" where
  "run_ops srt s [] = Finished s"
| "run_ops srt s (x # xs) =
     (case apply_op srt s x of
        Finished s' \<Rightarrow> run_ops srt s' xs
      | Misuse \<Rightarrow> Misuse
      | Diverges \<Rightarrow> Diverges)"

section \<open>Well-formed engines\<close>

text \<open>
  What every engine built from \<open>new_engine\<close> by its operations satisfies: each book is
  well-formed, the order objects resting in it were made by the engine (their
  addresses lie below \<open>next_addr\<close>), and no object rests in two books.
\<close>

definition engine_inv :: "MatchingEngine \<Rightarrow> bool" where
  "engine_inv e \<longleftrightarrow>
     (\<forall>smb book. order_books e smb = Some book \<longrightarrow>
        book_inv (objects e) book \<and> (\<forall>a \<in> set (resting book). a < next_addr e)) \<and>
     (\<forall>s1 s2 b1 b2. s1 \<noteq> s2 \<and> order_books e s1 = Some b1 \<and> order_books e s2 = Some b2 \<longrightarrow>
        set (resting b1) \<inter> set (resting b2) = {})"

text \<open>
  A caller of the engine: a sequence of calls, each with the clock readings and the
  places in the two indexes that it meets.
\<close>

datatype engine_op =
    AddBook string
  | Register
  | PlaceLimit string string OrderSide u64 real u64 u64 nat nat
  | PlaceMarket string string OrderSide u64 u64 u64
  | CancelOrder string u64

fun apply_engine_op :: "sorter \<Rightarrow> MatchingEngine \<Rightarrow> engine_op \<Rightarrow> MatchingEngine option" where
  "apply_engine_op srt e (AddBook smb) = Some (add_order_book e smb)"
| "apply_engine_op srt e Register = Some (register_trade_callback e)"
| "apply_engine_op srt e (PlaceLimit smb oid sd sz prc ts now ia ba) =
     map_option fst (place_limit_order srt ia ba e smb oid sd sz prc ts now)"
| "apply_engine_op srt e (PlaceMarket smb oid sd sz ts now) =
     map_option fst (place_market_order e smb oid sd sz ts now)"
| "apply_engine_op srt e (CancelOrder oid now) = Some (fst (engine_cancel_order e oid now))"

fun run_engine :: "sorter \<Rightarrow> MatchingEngine \<Rightarrow> engine_op list \<Rightarrow> MatchingEngine option" where
  "run_engine srt e [] = Some e"
| "run_engine srt e (x # xs) =
     (case apply_engine_op srt e x of None \<Rightarrow> None | Some e' \<Rightarrow> run_engine srt e' xs)"

section \<open>Priority of makers\<close>

text \<open>
  The id of the maker in a trade, for a taker on side \<open>sd\<close>, and strictly higher
  price-time priority among the makers that such a taker meets: strictly better
  price, or the same price and a strictly earlier timestamp. This is the comparison
  by which the contra side is sorted.
\<close>

definition maker_id :: "OrderSide \<Rightarrow> Trade \<Rightarrow> string" where
  "maker_id sd t = (if sd = Buy then order_id_sell t else order_id_buy t)"

definition higher_priority :: "store \<Rightarrow> OrderSide \<Rightarrow> addr \<Rightarrow> addr \<Rightarrow> bool" where
  "higher_priority h sd a b = (if sd = Buy then sell_before h a b else buy_before h a b)"

text \<open>The calls that a run of the engine adds to those made to the observers before.\<close>

definition new_calls :: "MatchingEngine \<Rightarrow> MatchingEngine \<Rightarrow> (nat \<times> Trade) list" where
  "new_calls e e' = drop (length (delivered e)) (delivered e')"

definition seen_by :: "nat \<Rightarrow> (nat \<times> Trade) list \<Rightarrow> Trade list" where
  "seen_by k calls = map snd (filter (\<lambda>c. fst c = k) calls)"

text \<open>
  An engine in which two sells at one price arrived under the same clock reading, and
  the buy that then takes both. The sort is the insertion sort, and either index links
  a new entry behind the older ones.
\<close>

definition tie_engine :: MatchingEngine where
  "tie_engine =
     engine_after (place_limit_order stable_sort 0 0
       (engine_after (place_limit_order stable_sort 0 0 (add_order_book new_engine ''T'')
          ''T'' ''S1'' Sell 100 10 1 1))
       ''T'' ''S2'' Sell 100 10 1 2)"

text \<open>The order objects and the book of that engine.\<close>

definition tie_store :: store where
  "tie_store =
     (objects new_engine)
       (0 := limit_order ''S1'' Sell ''T'' 100 10 1, 1 := limit_order ''S2'' Sell ''T'' 100 10 1)"

definition tie_book :: OrderBook where
  "tie_book =
     \<lparr>symbol_b = ''T'', buy_orders = [], sell_orders = [0, 1],
      order_map = [(''S1'', 0), (''S2'', 1)], last_update_time = 2\<rparr>"

definition tie_result :: "(MatchingEngine \<times> Trade list) option" where
  "tie_result = place_limit_order stable_sort 0 0 tie_engine ''T'' ''B'' Buy 200 10 2 3"


section \<open>A small book\<close>

text \<open>
  Three resting sells, S3 with the best price, S1 and S2 at one price in order of
  arrival, and an incoming buy B1 at address 3 that does not rest.
\<close>

definition ex_store :: store where
  "ex_store =
     (\<lambda>_. limit_order [] Buy [] 0 0 0)
       (0 := limit_order ''S1'' Sell ''T'' 100 10 1,
        1 := limit_order ''S2'' Sell ''T'' 100 10 2,
        2 := limit_order ''S3'' Sell ''T'' 100 9 3,
        3 := limit_order ''B1'' Buy ''T'' 200 10 4)"

definition ex_book :: OrderBook where
  "ex_book =
     \<lparr>symbol_b = ''T'', buy_orders = [], sell_orders = [2, 0, 1],
      order_map = [(''S1'', 0), (''S2'', 1), (''S3'', 2)], last_update_time = 3\<rparr>"

text \<open>The same store with one more object: a new sell that reuses the id S1.\<close>

definition ex_store_reuse :: store where
  "ex_store_reuse = ex_store(4 := limit_order ''S1'' Sell ''T'' 50 11 5)"

text \<open>
  An engine holding that book under the symbol T, with one observer. Its id index
  also holds an entry for an order B0 that no longer rests anywhere.
\<close>

definition ex_engine :: MatchingEngine where
  "ex_engine =
     \<lparr>order_books = [''T'' \<mapsto> ex_book],
      order_id_to_symbol = [(''B0'', ''T''), (''S1'', ''T''), (''S2'', ''T''), (''S3'', ''T'')],
      trade_callbacks = 1, objects = ex_store, next_addr = 4, delivered = []\<rparr>"

text \<open>The example book and engine in the first revision.\<close>

definition ex_book1 :: OrderBook1 where
  "ex_book1 =
     \<lparr>symbol_b1 = ''T'', buy_orders1 = [], sell_orders1 = [2, 0, 1],
      order_map1 = [''S1'' \<mapsto> 0, ''S2'' \<mapsto> 1, ''S3'' \<mapsto> 2], last_update_time1 = 3\<rparr>"

definition ex_engine1 :: MatchingEngine1 where
  "ex_engine1 =
     \<lparr>order_books1 = [''T'' \<mapsto> ex_book1],
      order_id_to_symbol1 = [''B0'' \<mapsto> ''T'', ''S1'' \<mapsto> ''T'', ''S2'' \<mapsto> ''T'', ''S3'' \<mapsto> ''T''],
      trade_callbacks1 = 1, objects1 = ex_store, next_addr1 = 4, delivered1 = []\<rparr>"

text \<open>
  Two buys with the same id U and a sell S, and a caller that adds the buys, matches
  the sell and cancels U once.
\<close>

definition dup_store :: store where
  "dup_store =
     (\<lambda>_. limit_order [] Buy [] 0 0 0)
       (10 := limit_order ''U'' Buy ''T'' 100 10 1,
        11 := limit_order ''U'' Buy ''T'' 200 11 2,
        12 := limit_order ''S'' Sell ''T'' 150 10 3)"

definition dup_ops :: "book_op list" where
  "dup_ops = [Add 10 0 1, Add 11 0 2, Match 12 3, Cancel ''U'' 4]"



definition dup_store_after :: store where
  "dup_store_after =
     dup_store
       (12 := (limit_order ''S'' Sell ''T'' 150 10 3)\<lparr>filled_size := 150, status := Filled\<rparr>,
        11 := (limit_order ''U'' Buy ''T'' 200 11 2)\<lparr>filled_size := 150, status := PartiallyFilled\<rparr>,
        10 := (limit_order ''U'' Buy ''T'' 100 10 1)\<lparr>status := Cancelled\<rparr>)"

definition dup_book_after :: OrderBook where
  "dup_book_after =
     \<lparr>symbol_b = ''T'', buy_orders = [11], sell_orders = [], order_map = [(''U'', 11)],
      last_update_time = 4\<rparr>"






text \<open>No two orders of a side agree in both price and timestamp.\<close>

definition no_ties :: "store \<Rightarrow> addr list \<Rightarrow> bool" where
  "no_ties h xs \<longleftrightarrow>
     (\<forall>a \<in> set xs. \<forall>b \<in> set xs.
        a \<noteq> b \<longrightarrow> price (h a) \<noteq> price (h b) \<or> timestamp (h a) \<noteq> timestamp (h b))"

text \<open>
  Another sort that meets the contract of \<^verbatim>\<open>std::sort\<close>: an insertion sort that places
  an element in front of the elements tied with it.
\<close>

fun place_front :: "('a \<Rightarrow> 'a \<Rightarrow> bool) \<Rightarrow> 'a \<Rightarrow> 'a list \<Rightarrow> 'a list" where
  "place_front before x [] = [x]"
| "place_front before x (y # ys) =
     (if \<not> before y x then x # y # ys else y # place_front before x ys)"

definition front_sort :: "('a \<Rightarrow> 'a \<Rightarrow> bool) \<Rightarrow> 'a list \<Rightarrow> 'a list" where
  "front_sort before xs = foldl (\<lambda>acc x. place_front before x acc) [] xs"

text \<open>The store of the engine with the tied sells, and one more sell at another price.\<close>

definition tie_store_more :: store where
  "tie_store_more = tie_store(2 := limit_order ''S9'' Sell ''T'' 10 12 5)"

text \<open>The small book's store with one more sell, under an id of its own.\<close>

definition ex_store_more :: store where
  "ex_store_more = ex_store(4 := limit_order ''S4'' Sell ''T'' 50 10 5)"

section \<open>Fills\<close>

lemma fill_fields [simp]:
  "order_id (fill x n) = order_id x" "side (fill x n) = side x" "type_o (fill x n) = type_o x"
  "symbol (fill x n) = symbol x" "size_o (fill x n) = size_o x" "price (fill x n) = price x"
  "timestamp (fill x n) = timestamp x" "filled_size (fill x n) = filled_size x + n"
  by (simp_all add: fill_def Let_def)

lemma fill_eq:
  "fill x n =
     x\<lparr>filled_size := filled_size x + n,
       status := (if size_o x \<le> filled_size x + n then Filled else PartiallyFilled)\<rparr>"
  by (simp add: fill_def Let_def is_filled_def)

lemma remaining_fill: "remaining_size (fill x n) = remaining_size x - n"
  by (simp add: remaining_size_def)

lemma fill_all_is_filled: "is_filled (fill x (remaining_size x))"
  by (simp add: is_filled_def remaining_size_def)

lemma fill_status: "status (fill x n) = (if is_filled (fill x n) then Filled else PartiallyFilled)"
  by (simp add: fill_def Let_def is_filled_def)

lemma unat_remaining_fill:
  "n \<le> remaining_size x \<Longrightarrow> unat (remaining_size (fill x n)) = unat (remaining_size x) - unat n"
  by (simp add: remaining_fill unat_sub)

lemma word_fill_le:
  fixes a s f :: u64
  shows "a \<le> s \<Longrightarrow> f \<le> s - a \<Longrightarrow> a + f \<le> s"
  by unat_arith

lemma unat_min: "unat (min a b) = min (unat a) (unat b)" for a b :: u64
  by (simp add: min_def word_le_nat_alt)

section \<open>The matching loop\<close>

lemma match_body_store:
  "fst (match_body h b ord now) =
     (let m = hd (opposite_side h b ord);
          f = min (remaining_size (h ord)) (remaining_size (h m));
          h1 = h(ord := fill (h ord) f)
      in h1(m := fill (h1 m) f))"
  by (simp add: match_body_def Let_def)

lemma match_body_static:
  "match_body h b ord now = (h', b', t) \<Longrightarrow>
     order_id (h' a) = order_id (h a) \<and> side (h' a) = side (h a) \<and> type_o (h' a) = type_o (h a) \<and>
     symbol (h' a) = symbol (h a) \<and> size_o (h' a) = size_o (h a) \<and> price (h' a) = price (h a) \<and>
     timestamp (h' a) = timestamp (h a)"
  by (auto simp: match_body_def Let_def)

lemma opposite_side_match_body:
  "match_body h b ord now = (h', b', t) \<Longrightarrow>
     opposite_side h' b' ord =
       (if is_filled (h' (hd (opposite_side h b ord))) then tl (opposite_side h b ord)
        else opposite_side h b ord)"
proof -
  assume mb: "match_body h b ord now = (h', b', t)"
  let ?m = "hd (opposite_side h b ord)"
  have sd: "side (h' ord) = side (h ord)"
    using match_body_static [OF mb] by simp
  have b': "b' = (if is_filled (h' ?m) then remove_head h' b ord ?m else b)"
    using mb by (auto simp: match_body_def Let_def)
  show ?thesis
    by (simp add: b' opposite_side_def remove_head_def sd Let_def)
qed

lemma match_body_progress:
  assumes c: "crosses h b ord" and ne: "hd (opposite_side h b ord) \<noteq> ord"
    and mb: "match_body h b ord now = (h', b', t)"
  shows "is_filled (h' (hd (opposite_side h b ord))) \<or> is_filled (h' ord)"
proof -
  let ?m = "hd (opposite_side h b ord)"
  let ?f = "min (remaining_size (h ord)) (remaining_size (h ?m))"
  have hm: "h' ?m = fill (h ?m) ?f" and ho: "h' ord = fill (h ord) ?f"
    using mb ne by (auto simp: match_body_def Let_def)
  have "?f = remaining_size (h ord) \<or> ?f = remaining_size (h ?m)"
    by (simp add: min_def)
  then show ?thesis
    using hm ho fill_all_is_filled by metis
qed

lemma match_body_measure:
  assumes c: "crosses h b ord" and ni: "ord \<notin> set (opposite_side h b ord)"
    and mb: "match_body h b ord now = (h', b', t)"
  shows "loop_measure h' b' ord < loop_measure h b ord \<and> ord \<notin> set (opposite_side h' b' ord)"
proof -
  let ?opp = "opposite_side h b ord"
  from c have ne: "?opp \<noteq> []" and nf: "\<not> is_filled (h ord)" by (auto simp: crosses_def)
  from ne ni have hd_ne: "hd ?opp \<noteq> ord" by (cases ?opp) auto
  note os = opposite_side_match_body [OF mb]
  have "ord \<notin> set (opposite_side h' b' ord)"
    using os ni ne by (auto dest: list.set_sel(2))
  moreover have "loop_measure h' b' ord < loop_measure h b ord"
    using match_body_progress [OF c hd_ne mb] os ne nf
    by (cases ?opp) (auto simp: loop_measure_def)
  ultimately show ?thesis by simp
qed

lemma match_loop_total_induct:
  assumes ni: "ord \<notin> set (opposite_side h b ord)"
    and base: "\<And>h b trades. \<not> crosses h b ord \<Longrightarrow> P h b trades (h, b, trades)"
    and step: "\<And>h b trades h' b' t r. crosses h b ord \<Longrightarrow> ord \<notin> set (opposite_side h b ord) \<Longrightarrow>
                 match_body h b ord now = (h', b', t) \<Longrightarrow>
                 match_loop h' b' ord now (trades @ [t]) = Some r \<Longrightarrow>
                 P h' b' (trades @ [t]) r \<Longrightarrow> P h b trades r"
  shows "\<exists>r. match_loop h b ord now trades = Some r \<and> P h b trades r"
  using ni
proof (induction "loop_measure h b ord" arbitrary: h b trades rule: less_induct)
  case less
  show ?case
  proof (cases "crosses h b ord")
    case False
    then show ?thesis by (subst match_loop.simps) (simp add: base)
  next
    case True
    obtain h' b' t where mb: "match_body h b ord now = (h', b', t)"
      by (cases "match_body h b ord now") auto
    from match_body_measure [OF True less.prems mb]
    have m: "loop_measure h' b' ord < loop_measure h b ord"
      and ni': "ord \<notin> set (opposite_side h' b' ord)" by simp_all
    from less.hyps [OF m ni', of "trades @ [t]"]
    obtain r where r: "match_loop h' b' ord now (trades @ [t]) = Some r" "P h' b' (trades @ [t]) r"
      by blast
    have "match_loop h b ord now trades = Some r"
      by (subst match_loop.simps) (simp add: True mb r)
    moreover have "P h b trades r"
      by (rule step [OF True less.prems mb r])
    ultimately show ?thesis by blast
  qed
qed

lemma match_loop_step:
  "crosses h b ord \<Longrightarrow> match_body h b ord now = (h', b', t) \<Longrightarrow>
   match_loop h b ord now trades = match_loop h' b' ord now (trades @ [t])"
  by (subst match_loop.simps) simp

lemma match_loop_stop:
  "\<not> crosses h b ord \<Longrightarrow> match_loop h b ord now trades = Some (h, b, trades)"
  by (subst match_loop.simps) simp

lemma match_body_frame:
  "match_body h b ord now = (h', b', t) \<Longrightarrow> a \<noteq> ord \<Longrightarrow> a \<noteq> hd (opposite_side h b ord) \<Longrightarrow>
   h' a = h a"
  by (auto simp: match_body_def Let_def)

text \<open>
  One pass through the body of the loop, entered when the incoming order crosses the
  head of the contra side and is not that very object.
\<close>

lemma match_body_fill:
  assumes c: "crosses h b ord" and ne: "hd (opposite_side h b ord) \<noteq> ord"
  shows "\<exists>h' b' t.
     match_body h b ord now = (h', b', t) \<and>
     match_loop h b ord now trades = match_loop h' b' ord now (trades @ [t]) \<and>
     size_t t = min (remaining_size (h ord)) (remaining_size (h (hd (opposite_side h b ord)))) \<and>
     price_t t = price (h (hd (opposite_side h b ord))) \<and>
     unat (remaining_size (h' ord)) = unat (remaining_size (h ord)) - unat (size_t t) \<and>
     unat (remaining_size (h' (hd (opposite_side h b ord)))) =
       unat (remaining_size (h (hd (opposite_side h b ord)))) - unat (size_t t) \<and>
     unat (size_t t) \<le> unat (remaining_size (h ord)) \<and>
     unat (size_t t) \<le> unat (remaining_size (h (hd (opposite_side h b ord))))"
proof -
  let ?m = "hd (opposite_side h b ord)"
  let ?f = "min (remaining_size (h ord)) (remaining_size (h ?m))"
  obtain h' b' t where mb: "match_body h b ord now = (h', b', t)"
    by (cases "match_body h b ord now") auto
  have hm: "h' ?m = fill (h ?m) ?f" and ho: "h' ord = fill (h ord) ?f"
    and sz: "size_t t = ?f" and pr: "price_t t = price (h ?m)"
    using mb ne by (auto simp: match_body_def Let_def)
  have lo: "?f \<le> remaining_size (h ord)" and lm: "?f \<le> remaining_size (h ?m)" by simp_all
  have "match_loop h b ord now trades = match_loop h' b' ord now (trades @ [t])"
    by (subst match_loop.simps) (simp add: c mb)
  then show ?thesis
    using mb sz pr unat_remaining_fill [OF lo] unat_remaining_fill [OF lm] lo lm hm ho
    by (simp add: word_le_nat_alt)
qed

lemma taken_simps [simp]: "taken [] = 0" "taken (t # ts) = unat (size_t t) + taken ts"
  "taken (ts @ us) = taken ts + taken us"
  by (simp_all add: taken_def)

lemma fills_from_nil: "fills_from h c ord h []"
  by (simp add: fills_from_def)

lemma fills_from_cons:
  assumes mo: "m \<noteq> ord" and mr: "m \<notin> set rest" and orr: "ord \<notin> set rest"
    and f: "unat (size_t t) = min (unat (remaining_size (h ord))) (unat (remaining_size (h m)))"
    and p: "price_t t = price (h m)"
    and ho: "unat (remaining_size (h' ord)) = unat (remaining_size (h ord)) - unat (size_t t)"
    and hm: "unat (remaining_size (h' m)) = unat (remaining_size (h m)) - unat (size_t t)"
    and fr: "\<forall>a. a \<noteq> ord \<and> a \<noteq> m \<longrightarrow> h' a = h a"
    and ih: "fills_from h' rest ord hr new"
  shows "fills_from h (m # rest) ord hr (t # new)"
proof -
  note d = ih [unfolded fills_from_def]
  from d have len: "length new \<le> length rest" by simp
  from d have tk: "taken new \<le> unat (remaining_size (h' ord))" by simp
  from d have fo: "unat (remaining_size (hr ord)) = unat (remaining_size (h' ord)) - taken new" by simp
  from d have frm: "\<forall>a. a \<noteq> ord \<and> a \<notin> set (take (length new) rest) \<longrightarrow> hr a = h' a" by simp
  have le: "unat (size_t t) \<le> unat (remaining_size (h ord))" using f by simp
  have 1: "length (t # new) \<le> length (m # rest)" using len by simp
  have hrm: "hr m = h' m"
    using frm mo mr by (auto dest: in_set_takeD)
  have 2: "unat (size_t ((t # new) ! i)) =
          min (unat (remaining_size (h ord)) - taken (take i (t # new)))
              (unat (remaining_size (h ((m # rest) ! i)))) \<and>
        price_t ((t # new) ! i) = price (h ((m # rest) ! i)) \<and>
        unat (remaining_size (hr ((m # rest) ! i))) =
          unat (remaining_size (h ((m # rest) ! i))) - unat (size_t ((t # new) ! i))"
    if i: "i < length (t # new)" for i
  proof (cases i)
    case 0
    then show ?thesis using f p hm hrm by simp
  next
    case (Suc j)
    with i have j: "j < length new" by simp
    with len have jr: "j < length rest" by simp
    then have mem: "rest ! j \<in> set rest" by simp
    with mr orr have "rest ! j \<noteq> m" "rest ! j \<noteq> ord" by auto
    with fr have eq: "h' (rest ! j) = h (rest ! j)" by simp
    from d j have
      a: "unat (size_t (new ! j)) =
          min (unat (remaining_size (h' ord)) - taken (take j new))
              (unat (remaining_size (h' (rest ! j))))"
      and b: "price_t (new ! j) = price (h' (rest ! j))"
      and c: "unat (remaining_size (hr (rest ! j))) =
          unat (remaining_size (h' (rest ! j))) - unat (size_t (new ! j))"
      by simp_all
    have "unat (remaining_size (h' ord)) - taken (take j new) =
          unat (remaining_size (h ord)) - (unat (size_t t) + taken (take j new))"
      using ho by simp
    with a b c show ?thesis by (simp add: Suc eq)
  qed
  have 3: "taken (t # new) \<le> unat (remaining_size (h ord))"
    using tk ho le by simp
  have 4: "unat (remaining_size (hr ord)) = unat (remaining_size (h ord)) - taken (t # new)"
    using fo ho by simp
  have 5: "hr a = h a" if "a \<noteq> ord" "a \<notin> set (take (length (t # new)) (m # rest))" for a
  proof -
    from that have "a \<noteq> m" "a \<notin> set (take (length new) rest)" by simp_all
    with frm fr that(1) show ?thesis by simp
  qed
  show ?thesis
    unfolding fills_from_def using 1 2 3 4 5 by blast
qed

lemma match_loop_fills:
  assumes ni: "ord \<notin> set (opposite_side h b ord)"
  shows "\<exists>r. match_loop h b ord now trades = Some r \<and>
           (distinct (opposite_side h b ord) \<longrightarrow>
              (\<exists>new. snd (snd r) = trades @ new \<and>
                 fills_from h (opposite_side h b ord) ord (fst r) new \<and>
                 \<not> crosses (fst r) (fst (snd r)) ord))"
  using ni
proof (rule match_loop_total_induct)
  fix h :: store and b :: OrderBook and trades :: "Trade list"
  assume "\<not> crosses h b ord"
  then show "distinct (opposite_side h b ord) \<longrightarrow>
              (\<exists>new. snd (snd (h, b, trades)) = trades @ new \<and>
                 fills_from h (opposite_side h b ord) ord (fst (h, b, trades)) new \<and>
                 \<not> crosses (fst (h, b, trades)) (fst (snd (h, b, trades))) ord)"
    by (simp add: fills_from_nil)
next
  fix h b trades h' b' t r
  assume c: "crosses h b ord" and ni: "ord \<notin> set (opposite_side h b ord)"
    and mb: "match_body h b ord now = (h', b', t)"
    and ml: "match_loop h' b' ord now (trades @ [t]) = Some r"
    and ih: "distinct (opposite_side h' b' ord) \<longrightarrow>
              (\<exists>new. snd (snd r) = (trades @ [t]) @ new \<and>
                 fills_from h' (opposite_side h' b' ord) ord (fst r) new \<and>
                 \<not> crosses (fst r) (fst (snd r)) ord)"
  let ?opp = "opposite_side h b ord"
  show "distinct ?opp \<longrightarrow>
              (\<exists>new. snd (snd r) = trades @ new \<and>
                 fills_from h ?opp ord (fst r) new \<and>
                 \<not> crosses (fst r) (fst (snd r)) ord)"
  proof
    assume d: "distinct ?opp"
    from c have ne: "?opp \<noteq> []" by (simp add: crosses_def)
    then obtain m rest where opp: "?opp = m # rest" by (cases ?opp) auto
    with ni d have mo: "m \<noteq> ord" and mr: "m \<notin> set rest" and orr: "ord \<notin> set rest"
      and dr: "distinct rest" by auto
    from opp have hd: "hd ?opp = m" by simp
    let ?f = "min (remaining_size (h ord)) (remaining_size (h m))"
    have hm: "h' m = fill (h m) ?f" and ho: "h' ord = fill (h ord) ?f"
      and sz: "size_t t = ?f" and pr: "price_t t = price (h m)"
      using mb mo hd by (auto simp: match_body_def Let_def)
    have fr: "\<forall>a. a \<noteq> ord \<and> a \<noteq> m \<longrightarrow> h' a = h a"
      using match_body_frame [OF mb] hd by simp
    have f: "unat (size_t t) = min (unat (remaining_size (h ord))) (unat (remaining_size (h m)))"
      by (simp add: sz unat_min)
    have lo: "?f \<le> remaining_size (h ord)" and lm: "?f \<le> remaining_size (h m)" by simp_all
    have ho': "unat (remaining_size (h' ord)) = unat (remaining_size (h ord)) - unat (size_t t)"
      using unat_remaining_fill [OF lo] by (simp add: ho sz)
    have hm': "unat (remaining_size (h' m)) = unat (remaining_size (h m)) - unat (size_t t)"
      using unat_remaining_fill [OF lm] by (simp add: hm sz)
    note os = opposite_side_match_body [OF mb]
    show "\<exists>new. snd (snd r) = trades @ new \<and>
                 fills_from h ?opp ord (fst r) new \<and>
                 \<not> crosses (fst r) (fst (snd r)) ord"
    proof (cases "is_filled (h' m)")
      case True
      with os opp have o': "opposite_side h' b' ord = rest" by simp
      with ih dr obtain new where new: "snd (snd r) = (trades @ [t]) @ new"
        "fills_from h' rest ord (fst r) new" "\<not> crosses (fst r) (fst (snd r)) ord"
        by auto
      from fills_from_cons [OF mo mr orr f pr ho' hm' fr new(2)]
      have "fills_from h ?opp ord (fst r) (t # new)" by (simp add: opp)
      with new(1,3) show ?thesis by (intro exI [of _ "t # new"]) simp
    next
      case False
      with match_body_progress [OF c _ mb] mo hd have "is_filled (h' ord)" by simp
      then have st: "\<not> crosses h' b' ord" by (simp add: crosses_def)
      from match_loop_stop [OF st, of now "trades @ [t]"] ml
      have r: "r = (h', b', trades @ [t])" by simp
      from fills_from_cons [OF mo mr orr f pr ho' hm' fr fills_from_nil]
      have "fills_from h ?opp ord h' [t]" by (simp add: opp)
      with st show ?thesis by (intro exI [of _ "[t]"]) (simp add: r)
    qed
  qed
qed

lemma crosses_time [simp]: "crosses h (b\<lparr>last_update_time := now\<rparr>) ord = crosses h b ord"
  by (simp add: crosses_def opposite_side_def)

text \<open>
  Claim C1. Let the contra side hold no order object twice and not the incoming order
  itself. Then \<open>match_order\<close> returns, and its trades meet the contra side from its
  head on, one maker per trade. The size of the \<open>i\<close>-th trade is the minimum of what the
  incoming order has left before that fill (its remaining quantity at the call less
  the sizes of the trades before) and of the remaining quantity of the \<open>i\<close>-th maker;
  its price is the price of that maker. The remaining quantity of each maker drops by
  exactly the size of its trade and that of the incoming order by exactly the sum of
  the sizes, nothing wraps, no other order object changes, and on return the incoming
  order no longer crosses the book.
\<close>

theorem C1_fill_is_min_at_maker_price:
  assumes d: "distinct (opposite_side h b ord)" and ni: "ord \<notin> set (opposite_side h b ord)"
  shows "\<exists>h' b' trades.
     match_order h b ord now = Some (h', b', trades) \<and>
     length trades \<le> length (opposite_side h b ord) \<and>
     (\<forall>i < length trades.
        unat (size_t (trades ! i)) =
          min (unat (remaining_size (h ord)) - taken (take i trades))
              (unat (remaining_size (h (opposite_side h b ord ! i)))) \<and>
        price_t (trades ! i) = price (h (opposite_side h b ord ! i)) \<and>
        unat (remaining_size (h' (opposite_side h b ord ! i))) =
          unat (remaining_size (h (opposite_side h b ord ! i))) - unat (size_t (trades ! i))) \<and>
     taken trades \<le> unat (remaining_size (h ord)) \<and>
     unat (remaining_size (h' ord)) = unat (remaining_size (h ord)) - taken trades \<and>
     (\<forall>a. a \<noteq> ord \<and> a \<notin> set (take (length trades) (opposite_side h b ord)) \<longrightarrow> h' a = h a) \<and>
     \<not> crosses h' b' ord"
proof -
  from match_loop_fills [OF ni, of now "[]"] d
  obtain h' b' ts where r: "match_loop h b ord now [] = Some (h', b', ts)"
    and f: "fills_from h (opposite_side h b ord) ord h' ts"
    and st: "\<not> crosses h' b' ord"
    by fastforce
  have "match_order h b ord now = Some (h', b'\<lparr>last_update_time := now\<rparr>, ts)"
    by (simp add: match_order_def r)
  moreover have "\<not> crosses h' (b'\<lparr>last_update_time := now\<rparr>) ord" using st by simp
  ultimately show ?thesis
    using f unfolding fills_from_def by blast
qed

lemma ex_match_b1:
  "match_order ex_store ex_book 3 9 =
     Some (ex_store
             (3 := (limit_order ''B1'' Buy ''T'' 200 10 4)\<lparr>filled_size := 200, status := Filled\<rparr>,
              2 := (limit_order ''S3'' Sell ''T'' 100 9 3)\<lparr>filled_size := 100, status := Filled\<rparr>,
              0 := (limit_order ''S1'' Sell ''T'' 100 10 1)\<lparr>filled_size := 100, status := Filled\<rparr>),
           ex_book\<lparr>sell_orders := [1], order_map := [(''S2'', 1)], last_update_time := 9\<rparr>,
           [\<lparr>order_id_buy = ''B1'', order_id_sell = ''S3'', size_t = 100, price_t = 9, timestamp_t = 9\<rparr>,
            \<lparr>order_id_buy = ''B1'', order_id_sell = ''S1'', size_t = 100, price_t = 10, timestamp_t = 9\<rparr>])"
proof -
  let ?h1 = "ex_store
      (3 := (limit_order ''B1'' Buy ''T'' 200 10 4)\<lparr>filled_size := 100, status := PartiallyFilled\<rparr>,
       2 := (limit_order ''S3'' Sell ''T'' 100 9 3)\<lparr>filled_size := 100, status := Filled\<rparr>)"
  let ?b1 = "ex_book\<lparr>sell_orders := [0, 1], order_map := [(''S1'', 0), (''S2'', 1)]\<rparr>"
  let ?h2 = "ex_store
      (3 := (limit_order ''B1'' Buy ''T'' 200 10 4)\<lparr>filled_size := 200, status := Filled\<rparr>,
       2 := (limit_order ''S3'' Sell ''T'' 100 9 3)\<lparr>filled_size := 100, status := Filled\<rparr>,
       0 := (limit_order ''S1'' Sell ''T'' 100 10 1)\<lparr>filled_size := 100, status := Filled\<rparr>)"
  let ?b2 = "ex_book\<lparr>sell_orders := [1], order_map := [(''S2'', 1)]\<rparr>"
  let ?t1 = "\<lparr>order_id_buy = ''B1'', order_id_sell = ''S3'', size_t = 100, price_t = 9, timestamp_t = 9\<rparr>"
  let ?t2 = "\<lparr>order_id_buy = ''B1'', order_id_sell = ''S1'', size_t = 100, price_t = 10, timestamp_t = 9\<rparr>"
  have c1: "crosses ex_store ex_book 3"
    by (simp add: crosses_def opposite_side_def price_matches_def is_filled_def ex_store_def
        ex_book_def limit_order_def)
  have m1: "match_body ex_store ex_book 3 9 = (?h1, ?b1, ?t1)"
    by (simp add: match_body_def Let_def opposite_side_def remaining_size_def fill_eq
        remove_head_def is_filled_def ex_store_def ex_book_def limit_order_def fun_upd_twist)
  have c2: "crosses ?h1 ?b1 3"
    by (simp add: crosses_def opposite_side_def price_matches_def is_filled_def ex_store_def
        ex_book_def limit_order_def)
  have m2: "match_body ?h1 ?b1 3 9 = (?h2, ?b2, ?t2)"
    by (simp add: match_body_def Let_def opposite_side_def remaining_size_def fill_eq
        remove_head_def is_filled_def ex_store_def ex_book_def limit_order_def fun_upd_twist)
  have st: "\<not> crosses ?h2 ?b2 3"
    by (simp add: crosses_def opposite_side_def is_filled_def limit_order_def)
  have "match_loop ex_store ex_book 3 9 [] = match_loop ?h1 ?b1 3 9 ([] @ [?t1])"
    by (rule match_loop_step [OF c1 m1])
  also have "\<dots> = match_loop ?h2 ?b2 3 9 (([] @ [?t1]) @ [?t2])"
    by (rule match_loop_step [OF c2 m2])
  also have "\<dots> = Some (?h2, ?b2, ([] @ [?t1]) @ [?t2])"
    by (rule match_loop_stop [OF st])
  finally show ?thesis
    by (simp add: match_order_def)
qed

theorem C1_witness:
  "distinct (opposite_side ex_store ex_book 3) \<and> 3 \<notin> set (opposite_side ex_store ex_book 3) \<and>
   opposite_side ex_store ex_book 3 = [2, 0, 1] \<and>
   unat (remaining_size (ex_store 3)) = 200 \<and> unat (remaining_size (ex_store 2)) = 100 \<and>
   unat (remaining_size (ex_store 0)) = 100 \<and>
   (\<exists>h' b'. match_order ex_store ex_book 3 9 =
       Some (h', b',
         [\<lparr>order_id_buy = ''B1'', order_id_sell = ''S3'', size_t = 100, price_t = 9, timestamp_t = 9\<rparr>,
          \<lparr>order_id_buy = ''B1'', order_id_sell = ''S1'', size_t = 100, price_t = 10, timestamp_t = 9\<rparr>]) \<and>
       unat (remaining_size (h' 3)) = 0 \<and> unat (remaining_size (h' 2)) = 0 \<and>
       unat (remaining_size (h' 0)) = 0 \<and> h' 1 = ex_store 1 \<and> \<not> crosses h' b' 3)"
proof -
  let ?ts = "[\<lparr>order_id_buy = ''B1'', order_id_sell = ''S3'', size_t = 100, price_t = 9, timestamp_t = 9\<rparr>,
          \<lparr>order_id_buy = ''B1'', order_id_sell = ''S1'', size_t = 100, price_t = 10, timestamp_t = 9\<rparr>]"
  have o: "opposite_side ex_store ex_book 3 = [2, 0, 1]"
    by (simp add: opposite_side_def ex_store_def ex_book_def limit_order_def)
  have d: "distinct (opposite_side ex_store ex_book 3)"
    and ni: "3 \<notin> set (opposite_side ex_store ex_book 3)"
    by (simp_all add: o)
  have q: "unat (remaining_size (ex_store 3)) = 200" "unat (remaining_size (ex_store 2)) = 100"
    "unat (remaining_size (ex_store 0)) = 100"
    by (simp_all add: remaining_size_def ex_store_def limit_order_def)
  from C1_fill_is_min_at_maker_price [OF d ni, of 9] ex_match_b1
  obtain h' b' where m: "match_order ex_store ex_book 3 9 = Some (h', b', ?ts)"
    and a: "\<forall>i < length ?ts.
        unat (remaining_size (h' (opposite_side ex_store ex_book 3 ! i))) =
          unat (remaining_size (ex_store (opposite_side ex_store ex_book 3 ! i))) -
          unat (size_t (?ts ! i))"
    and b: "unat (remaining_size (h' 3)) = unat (remaining_size (ex_store 3)) - taken ?ts"
    and c: "\<forall>a. a \<noteq> 3 \<and> a \<notin> set (take (length ?ts) (opposite_side ex_store ex_book 3)) \<longrightarrow>
               h' a = ex_store a"
    and st: "\<not> crosses h' b' 3"
    by auto
  from a [rule_format, of 0] a [rule_format, of 1]
  have "unat (remaining_size (h' 2)) = 0" "unat (remaining_size (h' 0)) = 0"
    by (simp_all add: o q)
  moreover from b have "unat (remaining_size (h' 3)) = 0" by (simp add: q)
  moreover from c [rule_format, of 1] have "h' 1 = ex_store 1" by (simp add: o)
  ultimately show ?thesis using d ni o q m st by blast
qed

section \<open>Order::fill and over-filling\<close>

lemma match_loop_no_overfill:
  assumes "ord \<notin> set (opposite_side h b ord)"
  shows "\<exists>r. match_loop h b ord now trades = Some r \<and>
           ((\<forall>a. filled_size (h a) \<le> size_o (h a)) \<longrightarrow>
              (\<forall>a. filled_size (fst r a) \<le> size_o (fst r a)))"
  using assms
proof (rule match_loop_total_induct)
  fix h :: store and b :: OrderBook and trades :: "Trade list"
  show "(\<forall>a. filled_size (h a) \<le> size_o (h a)) \<longrightarrow>
          (\<forall>a. filled_size (fst (h, b, trades) a) \<le> size_o (fst (h, b, trades) a))"
    by simp
next
  fix h b trades h' b' t r
  assume c: "crosses h b ord" and ni: "ord \<notin> set (opposite_side h b ord)"
    and mb: "match_body h b ord now = (h', b', t)"
    and ih: "(\<forall>a. filled_size (h' a) \<le> size_o (h' a)) \<longrightarrow>
               (\<forall>a. filled_size (fst r a) \<le> size_o (fst r a))"
  let ?m = "hd (opposite_side h b ord)"
  let ?f = "min (remaining_size (h ord)) (remaining_size (h ?m))"
  from c have "opposite_side h b ord \<noteq> []" by (simp add: crosses_def)
  with ni have ne: "?m \<noteq> ord" by (cases "opposite_side h b ord") auto
  have ho: "h' ord = fill (h ord) ?f" and hm: "h' ?m = fill (h ?m) ?f"
    using mb ne by (auto simp: match_body_def Let_def)
  show "(\<forall>a. filled_size (h a) \<le> size_o (h a)) \<longrightarrow>
          (\<forall>a. filled_size (fst r a) \<le> size_o (fst r a))"
  proof
    assume le: "\<forall>a. filled_size (h a) \<le> size_o (h a)"
    have fo: "?f \<le> size_o (h ord) - filled_size (h ord)"
      and fm: "?f \<le> size_o (h ?m) - filled_size (h ?m)"
      by (simp_all add: remaining_size_def)
    have "filled_size (h' a) \<le> size_o (h' a)" for a
    proof (cases "a = ord \<or> a = ?m")
      case True
      then show ?thesis
        using word_fill_le [OF le [rule_format, of ord] fo]
          word_fill_le [OF le [rule_format, of ?m] fm]
        by (auto simp: ho hm)
    next
      case False
      with match_body_frame [OF mb, of a] le show ?thesis by simp
    qed
    with ih show "\<forall>a. filled_size (fst r a) \<le> size_o (fst r a)" by simp
  qed
qed

text \<open>
  Claim C8 (as amended). \<open>fill\<close> makes no check and has no error path: for every order
  and every quantity, also one above the remaining quantity, it returns the order with
  \<open>filled_size\<close> increased by that quantity (modulo \<open>2^64\<close>) and with status \<open>Filled\<close>
  when the new \<open>filled_size\<close> reaches \<open>size\<close>, \<open>PartiallyFilled\<close> otherwise; no other
  field changes. \<open>match_order\<close> does not over-fill: on a pass on which the incoming
  order is not itself the head of the contra side, both orders are filled by the size
  of the trade, which exceeds neither remaining quantity; and when the incoming order
  is not on the contra side and no order object has more filled than its size before
  the call, none has after it.
\<close>

theorem C8_fill_unchecked:
  "fill x n =
     x\<lparr>filled_size := filled_size x + n,
       status := (if size_o x \<le> filled_size x + n then Filled else PartiallyFilled)\<rparr> \<and>
   (crosses h b ord \<and> hd (opposite_side h b ord) \<noteq> ord \<longrightarrow>
      (\<exists>h' b' t. match_body h b ord now = (h', b', t) \<and>
         h' ord = fill (h ord) (size_t t) \<and>
         h' (hd (opposite_side h b ord)) = fill (h (hd (opposite_side h b ord))) (size_t t) \<and>
         size_t t \<le> remaining_size (h ord) \<and>
         size_t t \<le> remaining_size (h (hd (opposite_side h b ord))))) \<and>
   (ord \<notin> set (opposite_side h b ord) \<and> (\<forall>a. filled_size (h a) \<le> size_o (h a)) \<longrightarrow>
      (\<exists>h' b' ts. match_order h b ord now = Some (h', b', ts) \<and>
         (\<forall>a. filled_size (h' a) \<le> size_o (h' a))))"
proof (intro conjI impI)
  show "fill x n =
     x\<lparr>filled_size := filled_size x + n,
       status := (if size_o x \<le> filled_size x + n then Filled else PartiallyFilled)\<rparr>"
    by (rule fill_eq)
next
  assume a: "crosses h b ord \<and> hd (opposite_side h b ord) \<noteq> ord"
  obtain h' b' t where mb: "match_body h b ord now = (h', b', t)"
    by (cases "match_body h b ord now") auto
  with a have "h' ord = fill (h ord) (size_t t)"
    "h' (hd (opposite_side h b ord)) = fill (h (hd (opposite_side h b ord))) (size_t t)"
    "size_t t = min (remaining_size (h ord)) (remaining_size (h (hd (opposite_side h b ord))))"
    by (auto simp: match_body_def Let_def)
  with mb show "\<exists>h' b' t. match_body h b ord now = (h', b', t) \<and>
         h' ord = fill (h ord) (size_t t) \<and>
         h' (hd (opposite_side h b ord)) = fill (h (hd (opposite_side h b ord))) (size_t t) \<and>
         size_t t \<le> remaining_size (h ord) \<and>
         size_t t \<le> remaining_size (h (hd (opposite_side h b ord)))"
    by simp
next
  assume a: "ord \<notin> set (opposite_side h b ord) \<and> (\<forall>a. filled_size (h a) \<le> size_o (h a))"
  then have ni: "ord \<notin> set (opposite_side h b ord)" by simp
  from match_loop_no_overfill [OF ni, of now "[]"] a
  obtain h' b' ts where r: "match_loop h b ord now [] = Some (h', b', ts)"
    and le: "\<forall>a. filled_size (h' a) \<le> size_o (h' a)"
    by fastforce
  have "match_order h b ord now = Some (h', b'\<lparr>last_update_time := now\<rparr>, ts)"
    by (simp add: match_order_def r)
  with le show "\<exists>h' b' ts. match_order h b ord now = Some (h', b', ts) \<and>
         (\<forall>a. filled_size (h' a) \<le> size_o (h' a))"
    by blast
qed

theorem C8_witness:
  "fill (limit_order ''X'' Buy ''T'' 5 10 1) 3 =
     (limit_order ''X'' Buy ''T'' 5 10 1)\<lparr>filled_size := 3, status := PartiallyFilled\<rparr> \<and>
   crosses ex_store ex_book 3 \<and> hd (opposite_side ex_store ex_book 3) = 2 \<and>
   remaining_size (ex_store 3) = 200 \<and> remaining_size (ex_store 2) = 100 \<and>
   (\<exists>h' b' t. match_body ex_store ex_book 3 9 = (h', b', t) \<and>
      h' 3 = fill (ex_store 3) (size_t t) \<and> h' 2 = fill (ex_store 2) (size_t t) \<and>
      size_t t \<le> 200 \<and> size_t t \<le> 100) \<and>
   3 \<notin> set (opposite_side ex_store ex_book 3) \<and>
   (\<forall>a. filled_size (ex_store a) \<le> size_o (ex_store a)) \<and>
   (\<exists>h' b' ts. match_order ex_store ex_book 3 9 = Some (h', b', ts) \<and>
      (\<forall>a. filled_size (h' a) \<le> size_o (h' a)))"
proof -
  note t = C8_fill_unchecked [where x = "limit_order ''X'' Buy ''T'' 5 10 1" and n = 3
      and h = ex_store and b = ex_book and ord = 3 and now = 9]
  have c: "crosses ex_store ex_book 3"
    by (simp add: crosses_def opposite_side_def price_matches_def is_filled_def ex_store_def
        ex_book_def limit_order_def)
  have m: "hd (opposite_side ex_store ex_book 3) = 2"
    and ni: "3 \<notin> set (opposite_side ex_store ex_book 3)"
    by (simp_all add: opposite_side_def ex_store_def ex_book_def limit_order_def)
  have q: "remaining_size (ex_store 3) = 200" "remaining_size (ex_store 2) = 100"
    by (simp_all add: remaining_size_def ex_store_def limit_order_def)
  have le: "\<forall>a. filled_size (ex_store a) \<le> size_o (ex_store a)"
    by (simp add: ex_store_def limit_order_def)
  from t have 1: "fill (limit_order ''X'' Buy ''T'' 5 10 1) 3 =
     (limit_order ''X'' Buy ''T'' 5 10 1)\<lparr>filled_size := 3, status := PartiallyFilled\<rparr>"
    by (simp add: limit_order_def)
  from t c m have 2: "\<exists>h' b' t. match_body ex_store ex_book 3 9 = (h', b', t) \<and>
      h' 3 = fill (ex_store 3) (size_t t) \<and> h' 2 = fill (ex_store 2) (size_t t) \<and>
      size_t t \<le> 200 \<and> size_t t \<le> 100"
    by (simp add: q)
  from t ni le have 3: "\<exists>h' b' ts. match_order ex_store ex_book 3 9 = Some (h', b', ts) \<and>
      (\<forall>a. filled_size (h' a) \<le> size_o (h' a))"
    by blast
  from 1 c m q 2 ni le 3 show ?thesis by blast
qed

text \<open>
  The claim as stated fails: an order of size 5 with nothing filled takes a fill of 6.
  The call returns an order with 6 filled and status \<open>Filled\<close>; nothing signals an error.
\<close>

theorem C8_counterexample:
  "remaining_size (limit_order ''X'' Buy ''T'' 5 10 1) < 6 \<and>
   fill (limit_order ''X'' Buy ''T'' 5 10 1) 6 =
     (limit_order ''X'' Buy ''T'' 5 10 1)\<lparr>filled_size := 6, status := Filled\<rparr>"
  by (simp add: remaining_size_def limit_order_def fill_def is_filled_def Let_def)

lemma match_order_filled:
  "is_filled (h ord) \<Longrightarrow> match_order h b ord now = Some (h, b\<lparr>last_update_time := now\<rparr>, [])"
  by (simp add: match_order_def match_loop_stop crosses_def)

lemma equal_range_nil_erase: "equal_range k m = [] \<Longrightarrow> mm_erase_first k m = m"
  by (induction m) (auto simp: equal_range_def)

lemma cancel_order_absent:
  "equal_range oid (order_map b) = [] \<Longrightarrow> cancel_order h b oid now = (h, b, False)"
  by (simp add: cancel_order_def)

section \<open>Cancelling through the engine\<close>

lemma engine_cancel_order_stale:
  assumes "equal_range oid (order_id_to_symbol e) = smb # rest"
    and "order_books e smb = Some book"
    and "equal_range oid (order_map book) = []"
  shows "engine_cancel_order e oid now = (e, False)"
proof -
  have "(order_books e)(smb \<mapsto> book) = order_books e"
    using assms(2) by (rule map_upd_triv)
  then show ?thesis
    using assms by (simp add: engine_cancel_order_def cancel_order_absent)
qed

lemma cancel_order1_absent:
  "order_map1 b oid = None \<Longrightarrow> cancel_order1 h b oid now = (h, b, False)"
  by (simp add: cancel_order1_def)

lemma engine_cancel_order1_stale:
  assumes "order_id_to_symbol1 e oid = Some smb" and "order_books1 e smb = Some book"
    and "order_map1 book oid = None"
  shows "engine_cancel_order1 e oid now = (e, False)"
proof -
  have "(order_books1 e)(smb \<mapsto> book) = order_books1 e"
    using assms(2) by (rule map_upd_triv)
  then show ?thesis
    using assms by (simp add: engine_cancel_order1_def cancel_order1_absent)
qed

text \<open>
  Claim C10. When the engine's id index has an entry for the id, the book of the first
  such entry exists, and that book has no entry for the id in its own index, then the
  engine's \<open>cancel_order\<close> returns false and leaves the whole engine as it was: the id
  index keeps the stale entry, no book and no order object changes. A cancel of the
  same id that follows therefore returns false again, on the same engine. Both
  revisions of the engine behave so.
\<close>

theorem C10_stale_entry_cancel_fails:
  "(equal_range oid (order_id_to_symbol e) = smb # rest \<and> order_books e smb = Some book \<and>
    equal_range oid (order_map book) = [] \<longrightarrow>
      engine_cancel_order e oid now = (e, False) \<and>
      engine_cancel_order (fst (engine_cancel_order e oid now)) oid now' = (e, False)) \<and>
   (order_id_to_symbol1 ea oid = Some smb \<and> order_books1 ea smb = Some booka \<and>
    order_map1 booka oid = None \<longrightarrow>
      engine_cancel_order1 ea oid now = (ea, False) \<and>
      engine_cancel_order1 (fst (engine_cancel_order1 ea oid now)) oid now' = (ea, False))"
proof (intro conjI impI)
  assume a: "equal_range oid (order_id_to_symbol e) = smb # rest \<and> order_books e smb = Some book \<and>
    equal_range oid (order_map book) = []"
  then have c: "engine_cancel_order e oid t = (e, False)" for t
    using engine_cancel_order_stale [of oid e smb rest book t] by blast
  show "engine_cancel_order e oid now = (e, False)" by (rule c)
  show "engine_cancel_order (fst (engine_cancel_order e oid now)) oid now' = (e, False)"
    by (simp add: c)
next
  assume a: "order_id_to_symbol1 ea oid = Some smb \<and> order_books1 ea smb = Some booka \<and>
    order_map1 booka oid = None"
  then have c: "engine_cancel_order1 ea oid t = (ea, False)" for t
    using engine_cancel_order1_stale [of ea oid smb booka t] by blast
  show "engine_cancel_order1 ea oid now = (ea, False)" by (rule c)
  show "engine_cancel_order1 (fst (engine_cancel_order1 ea oid now)) oid now' = (ea, False)"
    by (simp add: c)
qed

theorem C10_witness:
  "equal_range ''B0'' (order_id_to_symbol ex_engine) = ''T'' # [] \<and>
   order_books ex_engine ''T'' = Some ex_book \<and>
   equal_range ''B0'' (order_map ex_book) = [] \<and>
   engine_cancel_order ex_engine ''B0'' 8 = (ex_engine, False) \<and>
   engine_cancel_order (fst (engine_cancel_order ex_engine ''B0'' 8)) ''B0'' 9 = (ex_engine, False) \<and>
   order_id_to_symbol1 ex_engine1 ''B0'' = Some ''T'' \<and>
   order_books1 ex_engine1 ''T'' = Some ex_book1 \<and>
   order_map1 ex_book1 ''B0'' = None \<and>
   engine_cancel_order1 ex_engine1 ''B0'' 8 = (ex_engine1, False) \<and>
   engine_cancel_order1 (fst (engine_cancel_order1 ex_engine1 ''B0'' 8)) ''B0'' 9 = (ex_engine1, False)"
proof -
  have a: "equal_range ''B0'' (order_id_to_symbol ex_engine) = ''T'' # []"
    by (simp add: equal_range_def ex_engine_def)
  have b: "order_books ex_engine ''T'' = Some ex_book"
    by (simp add: ex_engine_def)
  have c: "equal_range ''B0'' (order_map ex_book) = []"
    by (simp add: equal_range_def ex_book_def)
  have a1: "order_id_to_symbol1 ex_engine1 ''B0'' = Some ''T''"
    and b1: "order_books1 ex_engine1 ''T'' = Some ex_book1"
    by (simp_all add: ex_engine1_def)
  have c1: "order_map1 ex_book1 ''B0'' = None"
    by (simp add: ex_book1_def)
  from C10_stale_entry_cancel_fails [where oid = "''B0''" and e = ex_engine and smb = "''T''"
      and rest = "[]" and book = ex_book and now = 8 and now' = 9 and ea = ex_engine1
      and booka = ex_book1]
    a b c a1 b1 c1
  show ?thesis by blast
qed

section \<open>Placing orders through the engine\<close>

text \<open>
  Claim C9 (as amended). A limit order of size 0 placed on an existing symbol returns
  no trade and leaves the two sides, the id index and the symbol of the target book
  as they were; the book differs from the one before only in \<open>last_update_time\<close>,
  which \<open>match_order\<close> sets to the reading of the clock.
\<close>

theorem C9_zero_size_limit_order:
  assumes "order_books e smb = Some book"
  shows "\<exists>e'. place_limit_order srt ia ba e smb oid sd 0 prc ts now = Some (e', []) \<and>
           order_books e' smb = Some (book\<lparr>last_update_time := now\<rparr>)"
  using assms
  by (simp add: place_limit_order_def Let_def match_order_filled is_filled_def limit_order_def)

theorem C9_witness:
  "order_books ex_engine ''T'' = Some ex_book \<and>
   (\<exists>e'. place_limit_order stable_sort 0 0 ex_engine ''T'' ''Z'' Buy 0 10 5 9 = Some (e', []) \<and>
      order_books e' ''T'' = Some (ex_book\<lparr>last_update_time := 9\<rparr>))"
proof -
  have b: "order_books ex_engine ''T'' = Some ex_book"
    by (simp add: ex_engine_def)
  from C9_zero_size_limit_order [OF b, of stable_sort 0 0 "''Z''" Buy 10 5 9] b show ?thesis by blast
qed

text \<open>
  The claim as stated fails: the book is not left completely unchanged. On the example
  engine, whose book was last updated at time 3, a buy of size 0 placed when the clock
  reads 9 returns no trade and leaves a book that differs from the one before.
\<close>

theorem C9_counterexample:
  "trades_of (place_limit_order stable_sort 0 0 ex_engine ''T'' ''Z'' Buy 0 10 5 9) = [] \<and>
   book_of (engine_after (place_limit_order stable_sort 0 0 ex_engine ''T'' ''Z'' Buy 0 10 5 9)) ''T'' \<noteq>
     book_of ex_engine ''T'' \<and>
   last_update_time (book_of ex_engine ''T'') = 3 \<and>
   last_update_time
     (book_of (engine_after (place_limit_order stable_sort 0 0 ex_engine ''T'' ''Z'' Buy 0 10 5 9)) ''T'') = 9"
proof -
  have b: "order_books ex_engine ''T'' = Some ex_book"
    by (simp add: ex_engine_def)
  have "place_limit_order stable_sort 0 0 ex_engine ''T'' ''Z'' Buy 0 10 5 9 =
      Some (ex_engine\<lparr>objects := ex_store(4 := limit_order ''Z'' Buy ''T'' 0 10 5), next_addr := 5,
              order_id_to_symbol := order_id_to_symbol ex_engine @ [(''Z'', ''T'')],
              order_books := [''T'' \<mapsto> ex_book\<lparr>last_update_time := 9\<rparr>]\<rparr>, [])"
    by (simp add: place_limit_order_def Let_def match_order_filled is_filled_def limit_order_def
        ex_engine_def mm_insert_def)
  then show ?thesis
    by (auto simp: trades_of_def engine_after_def book_of_def b ex_book_def)
qed

lemma foldl_notify_fields [simp]:
  "order_books (foldl notify_trade e ts) = order_books e"
  "order_id_to_symbol (foldl notify_trade e ts) = order_id_to_symbol e"
  "trade_callbacks (foldl notify_trade e ts) = trade_callbacks e"
  "objects (foldl notify_trade e ts) = objects e"
  "next_addr (foldl notify_trade e ts) = next_addr e"
  by (induction ts arbitrary: e) (simp_all add: notify_trade_def)

lemma ex_cross: "crosses (ex_store(4 := limit_order ''B9'' Buy ''T'' 100 10 5)) ex_book 4"
  by (simp add: crosses_def opposite_side_def price_matches_def is_filled_def ex_store_def
        ex_book_def limit_order_def)

lemma ex_body: "match_body (ex_store(4 := limit_order ''B9'' Buy ''T'' 100 10 5)) ex_book 4 9 =
   (ex_store(4 := (limit_order ''B9'' Buy ''T'' 100 10 5)\<lparr>filled_size := 100, status := Filled\<rparr>,
             2 := (limit_order ''S3'' Sell ''T'' 100 9 3)\<lparr>filled_size := 100, status := Filled\<rparr>),
    ex_book\<lparr>sell_orders := [0, 1], order_map := [(''S1'', 0), (''S2'', 1)]\<rparr>,
    \<lparr>order_id_buy = ''B9'', order_id_sell = ''S3'', size_t = 100, price_t = 9, timestamp_t = 9\<rparr>)"
  by (simp add: match_body_def Let_def opposite_side_def remaining_size_def fill_eq
      remove_head_def is_filled_def ex_store_def ex_book_def limit_order_def fun_upd_twist)

lemma ex_place_limit_filled:
  "trades_of (place_limit_order srt ia ba ex_engine ''T'' ''B9'' Buy 100 10 5 9) =
     [\<lparr>order_id_buy = ''B9'', order_id_sell = ''S3'', size_t = 100, price_t = 9, timestamp_t = 9\<rparr>] \<and>
   is_filled (objects (engine_after (place_limit_order srt ia ba ex_engine ''T'' ''B9'' Buy 100 10 5 9)) 4) \<and>
   resting (book_of (engine_after (place_limit_order srt ia ba ex_engine ''T'' ''B9'' Buy 100 10 5 9)) ''T'') = [0, 1] \<and>
   order_id_to_symbol (engine_after (place_limit_order srt ia ba ex_engine ''T'' ''B9'' Buy 100 10 5 9)) =
     mm_insert ia ''B9'' ''T'' (order_id_to_symbol ex_engine)"
proof -
  let ?h = "ex_store(4 := limit_order ''B9'' Buy ''T'' 100 10 5)"
  let ?h' = "ex_store(4 := (limit_order ''B9'' Buy ''T'' 100 10 5)\<lparr>filled_size := 100, status := Filled\<rparr>,
             2 := (limit_order ''S3'' Sell ''T'' 100 9 3)\<lparr>filled_size := 100, status := Filled\<rparr>)"
  have stop: "\<not> crosses ?h' (ex_book\<lparr>sell_orders := [0, 1], order_map := [(''S1'', 0), (''S2'', 1)]\<rparr>) 4"
    by (simp add: crosses_def is_filled_def limit_order_def)
  have m: "match_order ?h ex_book 4 9 =
     Some (?h', ex_book\<lparr>sell_orders := [0, 1], order_map := [(''S1'', 0), (''S2'', 1)], last_update_time := 9\<rparr>,
       [\<lparr>order_id_buy = ''B9'', order_id_sell = ''S3'', size_t = 100, price_t = 9, timestamp_t = 9\<rparr>])"
  proof -
    have "match_loop ?h ex_book 4 9 [] =
        match_loop ?h' (ex_book\<lparr>sell_orders := [0, 1], order_map := [(''S1'', 0), (''S2'', 1)]\<rparr>) 4 9
          ([] @ [\<lparr>order_id_buy = ''B9'', order_id_sell = ''S3'', size_t = 100, price_t = 9, timestamp_t = 9\<rparr>])"
      by (rule match_loop_step [OF ex_cross ex_body])
    also have "\<dots> = Some (?h', ex_book\<lparr>sell_orders := [0, 1], order_map := [(''S1'', 0), (''S2'', 1)]\<rparr>,
          [] @ [\<lparr>order_id_buy = ''B9'', order_id_sell = ''S3'', size_t = 100, price_t = 9, timestamp_t = 9\<rparr>])"
      by (rule match_loop_stop [OF stop])
    finally show ?thesis
      by (simp add: match_order_def)
  qed
  have p: "place_limit_order srt ia ba ex_engine ''T'' ''B9'' Buy 100 10 5 9 =
     Some (foldl notify_trade
       (ex_engine\<lparr>objects := ?h', next_addr := 5,
          order_id_to_symbol := mm_insert ia ''B9'' ''T'' (order_id_to_symbol ex_engine),
          order_books := [''T'' \<mapsto> ex_book\<lparr>sell_orders := [0, 1], order_map := [(''S1'', 0), (''S2'', 1)], last_update_time := 9\<rparr>]\<rparr>)
        [\<lparr>order_id_buy = ''B9'', order_id_sell = ''S3'', size_t = 100, price_t = 9, timestamp_t = 9\<rparr>],
        [\<lparr>order_id_buy = ''B9'', order_id_sell = ''S3'', size_t = 100, price_t = 9, timestamp_t = 9\<rparr>])"
  proof -
    have f: "is_filled ((limit_order ''B9'' Buy ''T'' 100 10 5)\<lparr>filled_size := 100, status := Filled\<rparr>)"
      by (simp add: is_filled_def limit_order_def)
    show ?thesis
      by (simp add: place_limit_order_def Let_def ex_engine_def m f)
  qed
  show ?thesis
    by (simp add: p trades_of_def engine_after_def book_of_def resting_def is_filled_def
        limit_order_def ex_book_def notify_trade_def)
qed

lemma match_loop1_step:
  "crosses1 h b ord \<Longrightarrow> match_body1 h b ord now = (h', b', t) \<Longrightarrow>
   match_loop1 h b ord now trades = match_loop1 h' b' ord now (trades @ [t])"
  by (subst match_loop1.simps) simp

lemma match_loop1_stop:
  "\<not> crosses1 h b ord \<Longrightarrow> match_loop1 h b ord now trades = Some (h, b, trades)"
  by (subst match_loop1.simps) simp

lemma foldl_notify1_fields [simp]:
  "order_books1 (foldl notify_trade1 e ts) = order_books1 e"
  "order_id_to_symbol1 (foldl notify_trade1 e ts) = order_id_to_symbol1 e"
  "trade_callbacks1 (foldl notify_trade1 e ts) = trade_callbacks1 e"
  "objects1 (foldl notify_trade1 e ts) = objects1 e"
  "next_addr1 (foldl notify_trade1 e ts) = next_addr1 e"
  by (induction ts arbitrary: e) (simp_all add: notify_trade1_def)

lemma ex_match1:
  "match_order1 srt (ex_store(4 := limit_order ''B9'' Buy ''T'' 100 10 5)) ex_book1 4 9 =
     Some (ex_store
             (4 := (limit_order ''B9'' Buy ''T'' 100 10 5)\<lparr>filled_size := 100, status := Filled\<rparr>,
              2 := (limit_order ''S3'' Sell ''T'' 100 9 3)\<lparr>filled_size := 100, status := Filled\<rparr>),
           ex_book1\<lparr>sell_orders1 := [0, 1]\<rparr>,
           [\<lparr>order_id_buy = ''B9'', order_id_sell = ''S3'', size_t = 100, price_t = 9, timestamp_t = 9\<rparr>])"
proof -
  let ?h0 = "ex_store(4 := limit_order ''B9'' Buy ''T'' 100 10 5)"
  let ?h1 = "ex_store
      (4 := (limit_order ''B9'' Buy ''T'' 100 10 5)\<lparr>filled_size := 100, status := Filled\<rparr>,
       2 := (limit_order ''S3'' Sell ''T'' 100 9 3)\<lparr>filled_size := 100, status := Filled\<rparr>)"
  let ?b1 = "ex_book1\<lparr>sell_orders1 := [0, 1]\<rparr>"
  let ?t1 = "\<lparr>order_id_buy = ''B9'', order_id_sell = ''S3'', size_t = 100, price_t = 9, timestamp_t = 9\<rparr>"
  have c1: "crosses1 ?h0 ex_book1 4"
    by (simp add: crosses1_def opposite_side1_def price_matches_def is_filled_def ex_store_def
        ex_book1_def limit_order_def)
  have m1: "match_body1 ?h0 ex_book1 4 9 = (?h1, ?b1, ?t1)"
    by (simp add: match_body1_def Let_def opposite_side1_def remaining_size_def fill_eq
        is_filled_def ex_store_def ex_book1_def limit_order_def fun_upd_twist)
  have st: "\<not> crosses1 ?h1 ?b1 4"
    by (simp add: crosses1_def is_filled_def limit_order_def)
  have "match_loop1 ?h0 ex_book1 4 9 [] = match_loop1 ?h1 ?b1 4 9 ([] @ [?t1])"
    by (rule match_loop1_step [OF c1 m1])
  also have "\<dots> = Some (?h1, ?b1, [] @ [?t1])"
    by (rule match_loop1_stop [OF st])
  finally have l: "match_loop1 ?h0 ex_book1 4 9 [] = Some (?h1, ?b1, [?t1])" by simp
  have f: "is_filled (?h1 4)" by (simp add: is_filled_def limit_order_def)
  have r: "remove_filled_orders1 ?h1 ?b1 = ?b1"
    by (simp add: remove_filled_orders1_def is_filled_def ex_store_def ex_book1_def limit_order_def)
  show ?thesis
    unfolding match_order1_def l by (simp only: option.case prod.case Let_def f r simp_thms if_False)
qed

lemma ex_place_limit_filled1:
  "trades_of1 (place_limit_order1 srt ex_engine1 ''T'' ''B9'' Buy 100 10 5 9) =
     [\<lparr>order_id_buy = ''B9'', order_id_sell = ''S3'', size_t = 100, price_t = 9, timestamp_t = 9\<rparr>] \<and>
   is_filled (objects1 (engine_after1 (place_limit_order1 srt ex_engine1 ''T'' ''B9'' Buy 100 10 5 9)) 4) \<and>
   sell_orders1 (book_of1 (engine_after1 (place_limit_order1 srt ex_engine1 ''T'' ''B9'' Buy 100 10 5 9)) ''T'')
     = [0, 1] \<and>
   buy_orders1 (book_of1 (engine_after1 (place_limit_order1 srt ex_engine1 ''T'' ''B9'' Buy 100 10 5 9)) ''T'')
     = [] \<and>
   order_id_to_symbol1 (engine_after1 (place_limit_order1 srt ex_engine1 ''T'' ''B9'' Buy 100 10 5 9)) ''B9''
     = Some ''T''"
proof -
  have e: "order_books1 ex_engine1 ''T'' = Some ex_book1" "objects1 ex_engine1 = ex_store"
    "next_addr1 ex_engine1 = 4"
    by (simp_all add: ex_engine1_def)
  have "\<exists>e'. place_limit_order1 srt ex_engine1 ''T'' ''B9'' Buy 100 10 5 9 =
      Some (e', [\<lparr>order_id_buy = ''B9'', order_id_sell = ''S3'', size_t = 100, price_t = 9, timestamp_t = 9\<rparr>]) \<and>
      objects1 e' = ex_store
             (4 := (limit_order ''B9'' Buy ''T'' 100 10 5)\<lparr>filled_size := 100, status := Filled\<rparr>,
              2 := (limit_order ''S3'' Sell ''T'' 100 9 3)\<lparr>filled_size := 100, status := Filled\<rparr>) \<and>
      order_books1 e' ''T'' = Some (ex_book1\<lparr>sell_orders1 := [0, 1]\<rparr>) \<and>
      order_id_to_symbol1 e' ''B9'' = Some ''T''"
    by (simp add: place_limit_order1_def e Let_def ex_match1 notify_trade1_def)
  then show ?thesis
    by (auto simp: trades_of1_def engine_after1_def book_of1_def is_filled_def limit_order_def
        ex_book1_def)
qed

text \<open>
  Claim C6, evaluated where it fails. On the example engine a buy B9 of 100 at 10 is
  filled in full by the resting sell S3. The order object, at address 4, is filled and
  does not rest in the book, yet the id index of the engine still holds the entry for
  B9 that the call registered before matching. Both revisions of the engine leave
  the entry, whatever the sort and wherever the index links the entry.
\<close>

theorem C6_entry_left_behind:
  "trades_of (place_limit_order srt ia ba ex_engine ''T'' ''B9'' Buy 100 10 5 9) =
     [\<lparr>order_id_buy = ''B9'', order_id_sell = ''S3'', size_t = 100, price_t = 9, timestamp_t = 9\<rparr>] \<and>
   is_filled (objects (engine_after (place_limit_order srt ia ba ex_engine ''T'' ''B9'' Buy 100 10 5 9)) 4) \<and>
   resting (book_of (engine_after (place_limit_order srt ia ba ex_engine ''T'' ''B9'' Buy 100 10 5 9)) ''T'') = [0, 1] \<and>
   order_id_to_symbol (engine_after (place_limit_order srt ia ba ex_engine ''T'' ''B9'' Buy 100 10 5 9)) =
     mm_insert ia ''B9'' ''T'' (order_id_to_symbol ex_engine) \<and>
   (''B9'', ''T'') \<in>
     set (order_id_to_symbol (engine_after (place_limit_order srt ia ba ex_engine ''T'' ''B9'' Buy 100 10 5 9))) \<and>
   trades_of1 (place_limit_order1 srt ex_engine1 ''T'' ''B9'' Buy 100 10 5 9) =
     [\<lparr>order_id_buy = ''B9'', order_id_sell = ''S3'', size_t = 100, price_t = 9, timestamp_t = 9\<rparr>] \<and>
   is_filled (objects1 (engine_after1 (place_limit_order1 srt ex_engine1 ''T'' ''B9'' Buy 100 10 5 9)) 4) \<and>
   sell_orders1 (book_of1 (engine_after1 (place_limit_order1 srt ex_engine1 ''T'' ''B9'' Buy 100 10 5 9)) ''T'')
     = [0, 1] \<and>
   buy_orders1 (book_of1 (engine_after1 (place_limit_order1 srt ex_engine1 ''T'' ''B9'' Buy 100 10 5 9)) ''T'')
     = [] \<and>
   order_id_to_symbol1 (engine_after1 (place_limit_order1 srt ex_engine1 ''T'' ''B9'' Buy 100 10 5 9)) ''B9''
     = Some ''T''"
proof -
  note a = ex_place_limit_filled [of srt ia ba]
  have "(''B9'', ''T'') \<in>
     set (order_id_to_symbol (engine_after (place_limit_order srt ia ba ex_engine ''T'' ''B9'' Buy 100 10 5 9)))"
    by (simp add: a mm_insert_def)
  with a ex_place_limit_filled1 [of srt] show ?thesis by blast
qed

section \<open>Where the first revision differs\<close>

text \<open>In the first revision \<open>match_order\<close> itself rests what is left of a limit order.\<close>

lemma first_revision_match_appends:
  "map_option (\<lambda>r. buy_orders1 (fst (snd r)))
     (match_order1 stable_sort (ex_store(4 := limit_order ''B9'' Buy ''T'' 100 5 5)) ex_book1 4 9) = Some [4]"
proof -
  let ?h0 = "ex_store(4 := limit_order ''B9'' Buy ''T'' 100 5 5)"
  have st: "\<not> crosses1 ?h0 ex_book1 4"
    by (simp add: crosses1_def opposite_side1_def price_matches_def is_filled_def ex_store_def
        ex_book1_def limit_order_def)
  have nf: "\<not> is_filled (?h0 4)" "type_o (?h0 4) = Limit" "side (?h0 4) = Buy"
    by (simp_all add: is_filled_def limit_order_def)
  show ?thesis
    unfolding match_order1_def match_loop1_stop [OF st]
    by (simp add: nf add_order1_def remove_filled_orders1_def Let_def stable_sort_def ex_book1_def
        is_filled_def limit_order_def)
qed

text \<open>
  In the first revision a second order with the id of a resting one takes over its
  index entry: the older order rests, and the index no longer leads to it.
\<close>

lemma first_revision_duplicate_id:
  "buy_orders1 (add_order1 stable_sort dup_store (add_order1 stable_sort dup_store (new_book1 ''T'') 10 1) 11 2) = [11, 10] \<and>
   order_map1 (add_order1 stable_sort dup_store (add_order1 stable_sort dup_store (new_book1 ''T'') 10 1) 11 2) ''U'' = Some 11 \<and>
   10 \<notin> ran (order_map1 (add_order1 stable_sort dup_store (add_order1 stable_sort dup_store (new_book1 ''T'') 10 1) 11 2))"
  by (simp add: add_order1_def Let_def stable_sort_def buy_before_def new_book1_def dup_store_def
      limit_order_def ran_def)

section \<open>Sorting, and books that stay well-formed\<close>

lemma set_place [simp]: "set (place lt x xs) = insert x (set xs)"
  by (induction xs) auto

lemma distinct_place [simp]: "distinct (place lt x xs) \<longleftrightarrow> x \<notin> set xs \<and> distinct xs"
  by (induction xs) auto

lemma remove1_place: "x \<notin> set xs \<Longrightarrow> remove1 x (place lt x xs) = xs"
  by (induction xs) auto

lemma place_snoc: "\<forall>y \<in> set xs. \<not> lt x y \<Longrightarrow> place lt x xs = xs @ [x]"
  by (induction xs) auto

lemma stable_sort_snoc: "stable_sort lt (xs @ [x]) = place lt x (stable_sort lt xs)"
  by (simp add: stable_sort_def)

lemma stable_sort_sorted: "sorted_wrt (\<lambda>a b. \<not> lt b a) xs \<Longrightarrow> stable_sort lt xs = xs"
proof (induction xs rule: rev_induct)
  case Nil
  show ?case by (simp add: stable_sort_def)
next
  case (snoc x xs)
  then have "stable_sort lt xs = xs" and "\<forall>y \<in> set xs. \<not> lt x y"
    by (auto simp: sorted_wrt_append)
  then show ?case by (simp add: stable_sort_snoc place_snoc)
qed

lemma stable_sort_add:
  "sorted_wrt (\<lambda>a b. \<not> lt b a) xs \<Longrightarrow> stable_sort lt (xs @ [x]) = place lt x xs"
  by (simp add: stable_sort_snoc stable_sort_sorted)

lemma sorted_place:
  assumes asym: "\<And>a b. lt a b \<Longrightarrow> \<not> lt b a"
    and ntrans: "\<And>a b c. \<not> lt b a \<Longrightarrow> \<not> lt c b \<Longrightarrow> \<not> lt c a"
  shows "sorted_wrt (\<lambda>a b. \<not> lt b a) xs \<Longrightarrow> sorted_wrt (\<lambda>a b. \<not> lt b a) (place lt x xs)"
proof (induction xs)
  case Nil
  show ?case by simp
next
  case (Cons y ys)
  show ?case
  proof (cases "lt x y")
    case True
    then have "\<not> lt y x" by (rule asym)
    moreover have "\<not> lt z x" if "z \<in> set ys" for z
      using Cons.prems that \<open>\<not> lt y x\<close> ntrans by auto
    ultimately show ?thesis using True Cons.prems by auto
  next
    case False
    then show ?thesis using Cons by auto
  qed
qed

lemma sorted_wrt_remove1: "sorted_wrt P xs \<Longrightarrow> sorted_wrt P (remove1 x xs)"
  by (induction xs) (auto dest: notin_set_remove1)

lemma sorted_wrt_tl: "sorted_wrt P xs \<Longrightarrow> sorted_wrt P (tl xs)"
  by (cases xs) auto

lemma buy_before_asym: "buy_before h a b \<Longrightarrow> \<not> buy_before h b a"
  by (auto simp: buy_before_def split: if_splits)

lemma buy_before_ntrans: "\<not> buy_before h b a \<Longrightarrow> \<not> buy_before h c b \<Longrightarrow> \<not> buy_before h c a"
  by (auto simp: buy_before_def split: if_splits)

lemma sell_before_asym: "sell_before h a b \<Longrightarrow> \<not> sell_before h b a"
  by (auto simp: sell_before_def split: if_splits)

lemma sell_before_ntrans: "\<not> sell_before h b a \<Longrightarrow> \<not> sell_before h c b \<Longrightarrow> \<not> sell_before h c a"
  by (auto simp: sell_before_def split: if_splits)

lemmas sorted_place_buy = sorted_place [of "buy_before h" for h, OF buy_before_asym buy_before_ntrans]
lemmas sorted_place_sell = sorted_place [of "sell_before h" for h, OF sell_before_asym sell_before_ntrans]

lemma mset_place [simp]: "mset (place lt x xs) = add_mset x (mset xs)"
  by (induction xs) auto

lemma mset_stable_sort [simp]: "mset (stable_sort lt xs) = mset xs"
  by (induction xs rule: rev_induct) (simp_all add: stable_sort_def)

lemma sorted_stable_sort:
  assumes "strict_weak_order lt"
  shows "sorted_wrt (\<lambda>a b. \<not> lt b a) (stable_sort lt xs)"
proof (induction xs rule: rev_induct)
  case Nil
  show ?case by (simp add: stable_sort_def)
next
  case (snoc x xs)
  have asym: "\<And>a b. lt a b \<Longrightarrow> \<not> lt b a"
    and ntrans: "\<And>a b c. \<not> lt b a \<Longrightarrow> \<not> lt c b \<Longrightarrow> \<not> lt c a"
    using assms unfolding strict_weak_order_def by blast+
  from sorted_place [of lt, OF asym ntrans snoc] show ?case
    by (simp add: stable_sort_snoc)
qed

text \<open>The insertion sort meets the contract of \<^verbatim>\<open>std::sort\<close>.\<close>

lemma stable_sort_contract: "std_sort_contract stable_sort"
  unfolding std_sort_contract_def by (simp add: sorted_stable_sort)

lemma strict_weak_buy_before [simp]: "strict_weak_order (buy_before h)"
  unfolding strict_weak_order_def using buy_before_asym buy_before_ntrans by blast

lemma strict_weak_sell_before [simp]: "strict_weak_order (sell_before h)"
  unfolding strict_weak_order_def using sell_before_asym sell_before_ntrans by blast

lemma std_sort_contractD:
  assumes "std_sort_contract srt" and "strict_weak_order lt"
  shows "mset (srt lt xs) = mset xs"
    and "sorted_wrt (\<lambda>a b. \<not> lt b a) (srt lt xs)"
    and "set (srt lt xs) = set xs"
    and "distinct (srt lt xs) \<longleftrightarrow> distinct xs"
proof -
  from assms show m: "mset (srt lt xs) = mset xs"
    and "sorted_wrt (\<lambda>a b. \<not> lt b a) (srt lt xs)"
    unfolding std_sort_contract_def by blast+
  from m show "set (srt lt xs) = set xs" by (rule mset_eq_setD)
  from m show "distinct (srt lt xs) \<longleftrightarrow> distinct xs" by (rule mset_eq_imp_distinct_iff)
qed

lemmas sort_buy = std_sort_contractD [OF _ strict_weak_buy_before]
lemmas sort_sell = std_sort_contractD [OF _ strict_weak_sell_before]

lemma set_take_drop: "set xs = set (take n xs) \<union> set (drop n xs)"
proof -
  have "set (take n xs @ drop n xs) = set (take n xs) \<union> set (drop n xs)"
    by (rule set_append)
  then show ?thesis by (simp only: append_take_drop_id)
qed

lemma set_insert_at: "set (take n xs @ y # drop n xs) = insert y (set xs)"
proof -
  have "set (take n xs @ y # drop n xs) = insert y (set (take n xs) \<union> set (drop n xs))"
    by simp
  also have "set (take n xs) \<union> set (drop n xs) = set xs"
    by (rule set_take_drop [symmetric])
  finally show ?thesis .
qed

lemma distinct_insert_at:
  "distinct (take n xs @ y # drop n xs) \<longleftrightarrow> y \<notin> set xs \<and> distinct xs"
proof -
  have "distinct (take n xs @ drop n xs) \<longleftrightarrow>
      distinct (take n xs) \<and> distinct (drop n xs) \<and> set (take n xs) \<inter> set (drop n xs) = {}"
    by (rule distinct_append)
  then have d: "distinct xs \<longleftrightarrow>
      distinct (take n xs) \<and> distinct (drop n xs) \<and> set (take n xs) \<inter> set (drop n xs) = {}"
    by (simp only: append_take_drop_id)
  have s: "y \<in> set xs \<longleftrightarrow> y \<in> set (take n xs) \<or> y \<in> set (drop n xs)"
    by (subst set_take_drop [of xs n]) simp
  show ?thesis unfolding d s by auto
qed

lemma set_mm_insert [simp]: "set (mm_insert a k v m) = insert (k, v) (set m)"
  unfolding mm_insert_def by (rule set_insert_at)

lemma distinct_map_snd_mm_insert [simp]:
  "distinct (map snd (mm_insert a k v m)) \<longleftrightarrow> v \<notin> snd ` set m \<and> distinct (map snd m)"
proof -
  have "map snd (mm_insert a k v m) =
          take (length m - a) (map snd m) @ v # drop (length m - a) (map snd m)"
    unfolding mm_insert_def by (simp only: map_append list.map snd_conv take_map drop_map)
  then show ?thesis
    by (simp only: distinct_insert_at set_map)
qed

lemma mm_insert_behind: "mm_insert 0 k v m = m @ [(k, v)]"
  by (simp add: mm_insert_def)

lemma same_static_before:
  "same_static h h' \<Longrightarrow> buy_before h' = buy_before h \<and> sell_before h' = sell_before h"
  by (auto simp: same_static_def buy_before_def sell_before_def fun_eq_iff)

lemma distinct_map_remove1: "distinct (map f xs) \<Longrightarrow> distinct (map f (remove1 x xs))"
proof (induction xs)
  case Nil
  show ?case by simp
next
  case (Cons y ys)
  have "f y \<notin> f ` set (remove1 x ys)"
    using Cons.prems set_remove1_subset [of x ys] by auto
  then show ?case using Cons by auto
qed

lemma image_snd_remove1:
  assumes "distinct (map snd xs)" and "(k, m) \<in> set xs"
  shows "snd ` set (remove1 (k, m) xs) = snd ` set xs - {m}"
proof -
  have d: "distinct xs" using assms(1) by (rule distinct_map [THEN iffD1, THEN conjunct1])
  have inj: "inj_on snd (set xs)" using assms(1) by (simp add: distinct_map)
  have "set (remove1 (k, m) xs) = set xs - {(k, m)}" using d by simp
  moreover have "snd ` (set xs - {(k, m)}) = snd ` set xs - snd ` {(k, m)}"
    using inj assms(2) by (intro inj_on_image_set_diff [where C = "set xs"]) auto
  ultimately show ?thesis by simp
qed

lemma book_inv_store:
  assumes "book_inv h b" and "same_static h h'"
    and "\<forall>a \<in> set (resting b). is_filled (h' a) = is_filled (h a)"
  shows "book_inv h' b"
  using assms same_static_before [OF assms(2)]
  unfolding book_inv_def same_static_def by simp

lemma book_inv_fields:
  "book_inv h b \<Longrightarrow> buy_orders b' = buy_orders b \<Longrightarrow> sell_orders b' = sell_orders b \<Longrightarrow>
   order_map b' = order_map b \<Longrightarrow> book_inv h b'"
  by (simp add: book_inv_def resting_def)

lemma book_inv_time: "book_inv h b \<Longrightarrow> book_inv h (b\<lparr>last_update_time := now\<rparr>)"
  by (erule book_inv_fields) simp_all

lemma book_inv_remove:
  assumes inv: "book_inv h b" and st: "same_static h h'"
    and m: "m \<in> set (resting b)"
    and rest: "\<forall>a \<in> set (resting b). a \<noteq> m \<longrightarrow> is_filled (h' a) = is_filled (h a)"
  shows "book_inv h' (book_remove b (order_id (h m)) m)"
proof -
  let ?b = "book_remove b (order_id (h m)) m"
  from inv have d: "distinct (resting b)" and di: "distinct (map snd (order_map b))"
    and ix: "snd ` set (order_map b) = set (resting b)"
    and key: "\<forall>e \<in> set (order_map b). fst e = order_id (h (snd e))"
    by (simp_all add: book_inv_def)
  from m ix have "m \<in> snd ` set (order_map b)" by simp
  then obtain e where e: "e \<in> set (order_map b)" "snd e = m" by blast
  with key have "fst e = order_id (h m)" by blast
  with e have km: "(order_id (h m), m) \<in> set (order_map b)"
    by (metis prod.collapse)
  have r: "set (resting ?b) = set (resting b) - {m}"
    using d by (auto simp: resting_def book_remove_def)
  have 1: "distinct (resting ?b)"
    using d by (auto simp: resting_def book_remove_def dest: notin_set_remove1)
  have 2: "distinct (map snd (order_map ?b))"
    using di by (simp add: book_remove_def distinct_map_remove1)
  have 3: "snd ` set (order_map ?b) = set (resting ?b)"
    using image_snd_remove1 [OF di km] ix r by (simp add: book_remove_def)
  have 4: "\<forall>e \<in> set (order_map ?b). fst e = order_id (h' (snd e))"
    using key st by (auto simp: book_remove_def same_static_def dest: notin_set_remove1)
  have 5: "(\<forall>a \<in> set (buy_orders ?b). side (h' a) = Buy) \<and>
           (\<forall>a \<in> set (sell_orders ?b). side (h' a) \<noteq> Buy)"
    using inv st by (auto simp: book_inv_def book_remove_def same_static_def dest: notin_set_remove1)
  have 6: "\<forall>a \<in> set (resting ?b). \<not> is_filled (h' a)"
    using inv rest r by (auto simp: book_inv_def)
  have 7: "sorted_wrt (\<lambda>x y. \<not> buy_before h' y x) (buy_orders ?b) \<and>
           sorted_wrt (\<lambda>x y. \<not> sell_before h' y x) (sell_orders ?b)"
    using inv same_static_before [OF st]
    by (simp add: book_inv_def book_remove_def sorted_wrt_remove1)
  show ?thesis
    unfolding book_inv_def using 1 2 3 4 5 6 7 by blast
qed

lemma equal_range_Cons_mem: "equal_range k m = v # vs \<Longrightarrow> (k, v) \<in> set m"
proof -
  assume "equal_range k m = v # vs"
  then have "v \<in> set (equal_range k m)" by simp
  then show ?thesis by (auto simp: equal_range_def)
qed

lemma mm_erase_first_remove1:
  "equal_range k m = v # vs \<Longrightarrow> mm_erase_first k m = remove1 (k, v) m"
  by (induction m) (auto simp: equal_range_def split: if_splits)


lemma equal_range_erase_other:
  "k' \<noteq> k \<Longrightarrow> equal_range k' (mm_erase_first k m) = equal_range k' m"
  by (induction m) (auto simp: equal_range_def)

lemma book_inv_sides:
  assumes "book_inv h b" and "a \<in> set (resting b)"
  shows "if side (h a) = Buy then a \<in> set (buy_orders b) \<and> a \<notin> set (sell_orders b)
         else a \<in> set (sell_orders b) \<and> a \<notin> set (buy_orders b)"
  using assms by (auto simp: book_inv_def resting_def)

lemma cancel_order_present:
  assumes inv: "book_inv h b" and er: "equal_range oid (order_map b) = ord # rest"
  shows "cancel_order h b oid now =
           (h(ord := (h ord)\<lparr>status := Cancelled\<rparr>),
            (book_remove b oid ord)\<lparr>last_update_time := now\<rparr>, True)"
    and "ord \<in> set (resting b)" and "order_id (h ord) = oid"
proof -
  from equal_range_Cons_mem [OF er] have km: "(oid, ord) \<in> set (order_map b)" .
  from inv have key: "\<forall>e \<in> set (order_map b). fst e = order_id (h (snd e))"
    and ix: "snd ` set (order_map b) = set (resting b)"
    by (simp_all add: book_inv_def)
  from km key show id: "order_id (h ord) = oid" by force
  from km have "snd (oid, ord) \<in> snd ` set (order_map b)" by (rule imageI)
  with ix show r: "ord \<in> set (resting b)" by simp
  note sd = book_inv_sides [OF inv r]
  show "cancel_order h b oid now =
           (h(ord := (h ord)\<lparr>status := Cancelled\<rparr>),
            (book_remove b oid ord)\<lparr>last_update_time := now\<rparr>, True)"
  proof (cases "side (h ord) = Buy")
    case True
    with sd have "remove1 ord (sell_orders b) = sell_orders b" by (simp add: remove1_idem)
    then show ?thesis
      unfolding cancel_order_def er book_remove_def
      by (simp add: True Let_def mm_erase_first_remove1 [OF er])
  next
    case False
    with sd have "remove1 ord (buy_orders b) = buy_orders b" by (simp add: remove1_idem)
    then show ?thesis
      unfolding cancel_order_def er book_remove_def
      by (simp add: False Let_def mm_erase_first_remove1 [OF er])
  qed
qed

lemma remove_head_book_remove:
  assumes inv: "book_inv h b" and ne: "opposite_side h b ord \<noteq> []"
    and st: "same_static h h'"
  shows "remove_head h' b ord (hd (opposite_side h b ord)) =
           book_remove b (order_id (h (hd (opposite_side h b ord)))) (hd (opposite_side h b ord))"
proof -
  let ?m = "hd (opposite_side h b ord)"
  have tl1: "tl xs = remove1 (hd xs) xs" if "xs \<noteq> []" for xs :: "addr list"
    using that by (cases xs) auto
  have d: "distinct (buy_orders b @ sell_orders b)"
    using inv by (simp add: book_inv_def resting_def)
  have sd: "side (h' ord) = side (h ord)" and id: "\<And>a. order_id (h' a) = order_id (h a)"
    using st by (simp_all add: same_static_def)
  show ?thesis
  proof (cases "side (h ord) = Buy")
    case True
    with ne have n: "sell_orders b \<noteq> []" by (simp add: opposite_side_def)
    then have "hd (sell_orders b) \<notin> set (buy_orders b)" using d by (cases "sell_orders b") auto
    then show ?thesis
      using True n by (simp add: remove_head_def book_remove_def opposite_side_def sd id
          Let_def tl1 remove1_idem)
  next
    case False
    with ne have n: "buy_orders b \<noteq> []" by (simp add: opposite_side_def)
    then have "hd (buy_orders b) \<notin> set (sell_orders b)" using d by (cases "buy_orders b") auto
    then show ?thesis
      using False n by (simp add: remove_head_def book_remove_def opposite_side_def sd id
          Let_def tl1 remove1_idem)
  qed
qed

lemma match_body_same_static:
  "match_body h b ord now = (h', b', t) \<Longrightarrow> same_static h h'"
  unfolding same_static_def using match_body_static by blast

lemma opposite_side_resting: "set (opposite_side h b ord) \<subseteq> set (resting b)"
  by (auto simp: opposite_side_def resting_def)

lemma match_body_inv:
  assumes inv: "book_inv h b" and nr: "ord \<notin> set (resting b)" and c: "crosses h b ord"
    and mb: "match_body h b ord now = (h', b', t)"
  shows "book_inv h' b' \<and> ord \<notin> set (resting b')"
proof -
  let ?m = "hd (opposite_side h b ord)"
  let ?f = "min (remaining_size (h ord)) (remaining_size (h ?m))"
  from c have ne: "opposite_side h b ord \<noteq> []" by (simp add: crosses_def)
  then have mo: "?m \<in> set (opposite_side h b ord)" by simp
  then have mr: "?m \<in> set (resting b)" using opposite_side_resting by blast
  with nr have mne: "?m \<noteq> ord" by auto
  note st = match_body_same_static [OF mb]
  have h': "h' = (h(ord := fill (h ord) ?f))(?m := fill (h ?m) ?f)"
    using mb mne by (auto simp: match_body_def Let_def)
  have b': "b' = (if is_filled (h' ?m) then remove_head h' b ord ?m else b)"
    using mb by (auto simp: match_body_def Let_def)
  have other: "\<forall>a \<in> set (resting b). a \<noteq> ?m \<longrightarrow> is_filled (h' a) = is_filled (h a)"
    using nr by (auto simp: h')
  show ?thesis
  proof (cases "is_filled (h' ?m)")
    case True
    then have "b' = book_remove b (order_id (h ?m)) ?m"
      using b' remove_head_book_remove [OF inv ne st] by simp
    moreover have "ord \<notin> set (resting (book_remove b (order_id (h ?m)) ?m))"
      using nr by (auto simp: resting_def book_remove_def dest: notin_set_remove1)
    ultimately show ?thesis
      using book_inv_remove [OF inv st mr other] by simp
  next
    case False
    have "\<not> is_filled (h ?m)" using inv mr by (simp add: book_inv_def)
    with False other have "\<forall>a \<in> set (resting b). is_filled (h' a) = is_filled (h a)"
      by auto
    then show ?thesis
      using False b' book_inv_store [OF inv st] nr by simp
  qed
qed

lemma book_invD:
  assumes "book_inv h b"
  shows "distinct (resting b)" and "distinct (map snd (order_map b))"
    and "snd ` set (order_map b) = set (resting b)"
    and "\<forall>e \<in> set (order_map b). fst e = order_id (h (snd e))"
    and "\<forall>a \<in> set (buy_orders b). side (h a) = Buy"
    and "\<forall>a \<in> set (sell_orders b). side (h a) \<noteq> Buy"
    and "\<forall>a \<in> set (resting b). \<not> is_filled (h a)"
    and "sorted_wrt (\<lambda>x y. \<not> buy_before h y x) (buy_orders b)"
    and "sorted_wrt (\<lambda>x y. \<not> sell_before h y x) (sell_orders b)"
  using assms by (simp_all add: book_inv_def)

lemma add_order_eq:
  "add_order srt ahead h b ord now =
     (if side (h ord) = Buy
      then b\<lparr>order_map := mm_insert ahead (order_id (h ord)) ord (order_map b),
             buy_orders := srt (buy_before h) (buy_orders b @ [ord]), last_update_time := now\<rparr>
      else b\<lparr>order_map := mm_insert ahead (order_id (h ord)) ord (order_map b),
             sell_orders := srt (sell_before h) (sell_orders b @ [ord]), last_update_time := now\<rparr>)"
  by (simp add: add_order_def Let_def sort_buy_orders_def sort_sell_orders_def)

lemma add_order_inv:
  assumes srt: "std_sort_contract srt"
    and inv: "book_inv h b" and nr: "ord \<notin> set (resting b)" and nf: "\<not> is_filled (h ord)"
  shows "book_inv h (add_order srt ahead h b ord now)"
proof -
  note d = book_invD [OF inv]
  note sb = sort_buy [OF srt] and ss = sort_sell [OF srt]
  have nix: "ord \<notin> snd ` set (order_map b)" using d(3) nr by simp
  show ?thesis
  proof (cases "side (h ord) = Buy")
    case True
    let ?b = "b\<lparr>order_map := mm_insert ahead (order_id (h ord)) ord (order_map b),
             buy_orders := srt (buy_before h) (buy_orders b @ [ord]), last_update_time := now\<rparr>"
    have 1: "distinct (resting ?b)" using d(1) nr by (simp add: resting_def sb)
    have 2: "distinct (map snd (order_map ?b))" using d(2) nix by simp
    have 3: "snd ` set (order_map ?b) = set (resting ?b)"
      using d(3) by (simp add: resting_def sb)
    have 4: "\<forall>e \<in> set (order_map ?b). fst e = order_id (h (snd e))" using d(4) by simp
    have 5: "\<forall>a \<in> set (buy_orders ?b). side (h a) = Buy" using d(5) True by (simp add: sb)
    have 6: "\<forall>a \<in> set (sell_orders ?b). side (h a) \<noteq> Buy" using d(6) by simp
    have 7: "\<forall>a \<in> set (resting ?b). \<not> is_filled (h a)"
      using d(7) nf by (simp add: resting_def sb)
    have 8: "sorted_wrt (\<lambda>x y. \<not> buy_before h y x) (buy_orders ?b)"
      by (simp add: sb(2))
    have 9: "sorted_wrt (\<lambda>x y. \<not> sell_before h y x) (sell_orders ?b)"
      using d(9) by simp
    have "book_inv h ?b"
      unfolding book_inv_def by (intro conjI 1 2 3 4 5 6 7 8 9)
    then show ?thesis by (simp add: add_order_eq True)
  next
    case False
    let ?b = "b\<lparr>order_map := mm_insert ahead (order_id (h ord)) ord (order_map b),
             sell_orders := srt (sell_before h) (sell_orders b @ [ord]), last_update_time := now\<rparr>"
    have 1: "distinct (resting ?b)" using d(1) nr by (simp add: resting_def ss)
    have 2: "distinct (map snd (order_map ?b))" using d(2) nix by simp
    have 3: "snd ` set (order_map ?b) = set (resting ?b)"
      using d(3) by (simp add: resting_def ss)
    have 4: "\<forall>e \<in> set (order_map ?b). fst e = order_id (h (snd e))" using d(4) by simp
    have 5: "\<forall>a \<in> set (buy_orders ?b). side (h a) = Buy" using d(5) by simp
    have 6: "\<forall>a \<in> set (sell_orders ?b). side (h a) \<noteq> Buy" using d(6) False by (simp add: ss)
    have 7: "\<forall>a \<in> set (resting ?b). \<not> is_filled (h a)"
      using d(7) nf by (simp add: resting_def ss)
    have 8: "sorted_wrt (\<lambda>x y. \<not> buy_before h y x) (buy_orders ?b)"
      using d(8) by simp
    have 9: "sorted_wrt (\<lambda>x y. \<not> sell_before h y x) (sell_orders ?b)"
      by (simp add: ss(2))
    have "book_inv h ?b"
      unfolding book_inv_def by (intro conjI 1 2 3 4 5 6 7 8 9)
    then show ?thesis by (simp add: add_order_eq False)
  qed
qed

lemma cancel_order_inv:
  assumes inv: "book_inv h b" and c: "cancel_order h b oid now = (h', b', ok)"
  shows "book_inv h' b'"
proof (cases "equal_range oid (order_map b)")
  case Nil
  then show ?thesis using c inv by (simp add: cancel_order_def)
next
  case (Cons ord rest)
  note p = cancel_order_present [OF inv Cons]
  let ?h = "h(ord := (h ord)\<lparr>status := Cancelled\<rparr>)"
  have st: "same_static h ?h" by (simp add: same_static_def)
  have "\<forall>a \<in> set (resting b). a \<noteq> ord \<longrightarrow> is_filled (?h a) = is_filled (h a)" by simp
  from book_inv_remove [OF inv st p(2) this]
  have "book_inv ?h (book_remove b oid ord)" unfolding p(3) .
  then have "book_inv ?h ((book_remove b oid ord)\<lparr>last_update_time := now\<rparr>)"
    by (rule book_inv_time)
  then show ?thesis using c p(1) [of now] by simp
qed

lemma in_set_tl: "x \<in> set (tl xs) \<Longrightarrow> x \<in> set xs"
  by (cases xs) auto

lemma remove_head_subset:
  "set (buy_orders (remove_head h b ord m)) \<subseteq> set (buy_orders b) \<and>
   set (sell_orders (remove_head h b ord m)) \<subseteq> set (sell_orders b) \<and>
   set (order_map (remove_head h b ord m)) \<subseteq> set (order_map b) \<and>
   symbol_b (remove_head h b ord m) = symbol_b b \<and>
   last_update_time (remove_head h b ord m) = last_update_time b"
  by (cases "side (h ord) = Buy")
    (auto simp: remove_head_def Let_def dest: in_set_tl notin_set_remove1 set_remove1_subset [THEN subsetD])

lemma match_body_subset:
  assumes "match_body h b ord now = (h', b', t)"
  shows "set (buy_orders b') \<subseteq> set (buy_orders b) \<and> set (sell_orders b') \<subseteq> set (sell_orders b) \<and>
         set (order_map b') \<subseteq> set (order_map b) \<and> symbol_b b' = symbol_b b \<and>
         last_update_time b' = last_update_time b"
proof -
  have "b' = b \<or> b' = remove_head h' b ord (hd (opposite_side h b ord))"
    using assms by (auto simp: match_body_def Let_def)
  then show ?thesis
    using remove_head_subset [of h' b ord "hd (opposite_side h b ord)"] by auto
qed

lemma match_loop_subset:
  assumes "ord \<notin> set (opposite_side h b ord)"
  shows "\<exists>r. match_loop h b ord now trades = Some r \<and>
           (set (buy_orders (fst (snd r))) \<subseteq> set (buy_orders b) \<and>
            set (sell_orders (fst (snd r))) \<subseteq> set (sell_orders b) \<and>
            set (order_map (fst (snd r))) \<subseteq> set (order_map b) \<and>
            symbol_b (fst (snd r)) = symbol_b b \<and>
            last_update_time (fst (snd r)) = last_update_time b)"
  using assms
proof (rule match_loop_total_induct, goal_cases)
  case (1 h b trades)
  show ?case by simp
next
  case (2 h b trades h' b' t r)
  from match_body_subset [OF 2(3)] 2(5) show ?case by auto
qed

section \<open>The matching loop keeps the book well-formed\<close>

lemma same_static_refl [simp]: "same_static h h"
  by (simp add: same_static_def)

lemma same_static_trans: "same_static h h1 \<Longrightarrow> same_static h1 h2 \<Longrightarrow> same_static h h2"
  by (simp add: same_static_def)

lemma match_body_resting_subset:
  "match_body h b ord now = (h', b', t) \<Longrightarrow> set (resting b') \<subseteq> set (resting b)"
  using match_body_subset [of h b ord now h' b' t] by (auto simp: resting_def)

lemma match_loop_inv:
  assumes inv: "book_inv h b" and nr: "ord \<notin> set (resting b)"
  shows "\<exists>r. match_loop h b ord now trades = Some r \<and>
           (book_inv h b \<and> ord \<notin> set (resting b) \<longrightarrow>
              book_inv (fst r) (fst (snd r)) \<and> ord \<notin> set (resting (fst (snd r))) \<and>
              same_static h (fst r) \<and> set (resting (fst (snd r))) \<subseteq> set (resting b) \<and>
              (\<forall>a. a \<noteq> ord \<and> a \<notin> set (resting b) \<longrightarrow> fst r a = h a))"
proof (rule match_loop_total_induct)
  show "ord \<notin> set (opposite_side h b ord)"
    using nr opposite_side_resting by blast
next
  fix h b trades
  show "book_inv h b \<and> ord \<notin> set (resting b) \<longrightarrow>
          book_inv (fst (h, b, trades)) (fst (snd (h, b, trades))) \<and>
          ord \<notin> set (resting (fst (snd (h, b, trades)))) \<and>
          same_static h (fst (h, b, trades)) \<and>
          set (resting (fst (snd (h, b, trades)))) \<subseteq> set (resting b) \<and>
          (\<forall>a. a \<noteq> ord \<and> a \<notin> set (resting b) \<longrightarrow> fst (h, b, trades) a = h a)"
    by simp
next
  fix h b trades h' b' t r
  assume c: "crosses h b ord" and mb: "match_body h b ord now = (h', b', t)"
    and ih: "book_inv h' b' \<and> ord \<notin> set (resting b') \<longrightarrow>
          book_inv (fst r) (fst (snd r)) \<and> ord \<notin> set (resting (fst (snd r))) \<and>
          same_static h' (fst r) \<and> set (resting (fst (snd r))) \<subseteq> set (resting b') \<and>
          (\<forall>a. a \<noteq> ord \<and> a \<notin> set (resting b') \<longrightarrow> fst r a = h' a)"
  show "book_inv h b \<and> ord \<notin> set (resting b) \<longrightarrow>
          book_inv (fst r) (fst (snd r)) \<and> ord \<notin> set (resting (fst (snd r))) \<and>
          same_static h (fst r) \<and> set (resting (fst (snd r))) \<subseteq> set (resting b) \<and>
          (\<forall>a. a \<noteq> ord \<and> a \<notin> set (resting b) \<longrightarrow> fst r a = h a)"
  proof
    assume a: "book_inv h b \<and> ord \<notin> set (resting b)"
    then have inv: "book_inv h b" and nr: "ord \<notin> set (resting b)" by simp_all
    from match_body_inv [OF inv nr c mb] ih
    have r: "book_inv (fst r) (fst (snd r))" "ord \<notin> set (resting (fst (snd r)))"
      "same_static h' (fst r)" "set (resting (fst (snd r))) \<subseteq> set (resting b')"
      "\<forall>a. a \<noteq> ord \<and> a \<notin> set (resting b') \<longrightarrow> fst r a = h' a"
      by simp_all
    note sub = match_body_resting_subset [OF mb]
    from c have "opposite_side h b ord \<noteq> []" by (simp add: crosses_def)
    then have m: "hd (opposite_side h b ord) \<in> set (resting b)"
      using opposite_side_resting [of h b ord] by auto
    have fr: "fst r a = h a" if "a \<noteq> ord" "a \<notin> set (resting b)" for a
    proof -
      from that sub have "a \<notin> set (resting b')" by blast
      with r(5) that have "fst r a = h' a" by simp
      moreover from that m have "a \<noteq> hd (opposite_side h b ord)" by auto
      ultimately show ?thesis using match_body_frame [OF mb that(1)] by simp
    qed
    show "book_inv (fst r) (fst (snd r)) \<and> ord \<notin> set (resting (fst (snd r))) \<and>
          same_static h (fst r) \<and> set (resting (fst (snd r))) \<subseteq> set (resting b) \<and>
          (\<forall>a. a \<noteq> ord \<and> a \<notin> set (resting b) \<longrightarrow> fst r a = h a)"
      using r(1,2) same_static_trans [OF match_body_same_static [OF mb] r(3)] r(4) sub fr
      by blast
  qed
qed

lemma match_order_inv:
  assumes inv: "book_inv h b" and nr: "ord \<notin> set (resting b)"
  shows "\<exists>h' b' ts. match_order h b ord now = Some (h', b', ts) \<and>
           book_inv h' b' \<and> ord \<notin> set (resting b') \<and> same_static h h' \<and>
           set (resting b') \<subseteq> set (resting b) \<and>
           (\<forall>a. a \<noteq> ord \<and> a \<notin> set (resting b) \<longrightarrow> h' a = h a)"
proof -
  from match_loop_inv [OF inv nr, of now "[]"] inv nr
  obtain h' b' ts where r: "match_loop h b ord now [] = Some (h', b', ts)"
    "book_inv h' b'" "ord \<notin> set (resting b')" "same_static h h'"
    "set (resting b') \<subseteq> set (resting b)"
    "\<forall>a. a \<noteq> ord \<and> a \<notin> set (resting b) \<longrightarrow> h' a = h a"
    by fastforce
  have "match_order h b ord now = Some (h', b'\<lparr>last_update_time := now\<rparr>, ts)"
    by (simp add: match_order_def r(1))
  moreover have "book_inv h' (b'\<lparr>last_update_time := now\<rparr>)"
    using r(2) by (rule book_inv_time)
  moreover have "resting (b'\<lparr>last_update_time := now\<rparr>) = resting b'"
    by (simp add: resting_def)
  ultimately show ?thesis using r by auto
qed

lemma book_inv_new [simp]: "book_inv h (new_book smb)"
  by (simp add: book_inv_def new_book_def resting_def)

lemma apply_op_inv:
  assumes srt: "std_sort_contract srt" and inv: "book_inv h b"
  shows "apply_op srt (h, b) x \<noteq> Diverges \<and>
         (\<forall>h' b'. apply_op srt (h, b) x = Finished (h', b') \<longrightarrow> book_inv h' b')"
proof (cases x)
  case (Add ord ahead now)
  then show ?thesis using add_order_inv [OF srt inv] by auto
next
  case (Cancel oid now)
  then show ?thesis using cancel_order_inv [OF inv]
    by (auto split: prod.splits)
next
  case (Match ord now)
  show ?thesis
  proof (cases "ord \<in> set (resting b)")
    case True
    then show ?thesis by (simp add: Match)
  next
    case False
    from match_order_inv [OF inv False, of now]
    obtain h' b' ts where "match_order h b ord now = Some (h', b', ts)" "book_inv h' b'"
      by blast
    then show ?thesis by (simp add: Match False)
  qed
qed

lemma run_ops_inv:
  "std_sort_contract srt \<Longrightarrow> book_inv h b \<Longrightarrow>
   run_ops srt (h, b) ops \<noteq> Diverges \<and>
   (\<forall>h' b'. run_ops srt (h, b) ops = Finished (h', b') \<longrightarrow> book_inv h' b')"
proof (induction ops arbitrary: h b)
  case Nil
  then show ?case by simp
next
  case (Cons x xs)
  from apply_op_inv [OF Cons.prems, of x]
  have nd: "apply_op srt (h, b) x \<noteq> Diverges"
    and f: "\<And>h' b'. apply_op srt (h, b) x = Finished (h', b') \<Longrightarrow> book_inv h' b'"
    by blast+
  show ?case
  proof (cases "apply_op srt (h, b) x")
    case (Finished s)
    obtain h1 b1 where s: "s = (h1, b1)" by (cases s)
    from f Finished s have "book_inv h1 b1" by simp
    from Cons.IH [OF Cons.prems(1) this] show ?thesis by (simp add: Finished s)
  next
    case Misuse
    then show ?thesis by simp
  next
    case Diverges
    with nd show ?thesis by simp
  qed
qed

lemma count_list_distinct: "distinct xs \<Longrightarrow> x \<in> set xs \<Longrightarrow> count_list xs x = 1"
  by (induction xs) auto

lemma not_filled_remaining:
  "\<not> is_filled x \<Longrightarrow> 0 < remaining_size x \<and> remaining_size x \<le> size_o x"
  unfolding is_filled_def remaining_size_def
  by (simp add: word_sub_le word_neq_0_conv [symmetric])

text \<open>
  Claim C3. Start from an empty book and let a caller make any sequence of \<open>add_order\<close>,
  \<open>cancel_order\<close> and \<open>match_order\<close> calls that keeps to the contract of the book (an
  order object is added only while it does not rest and has something left to fill;
  a resting object is not passed to \<open>match_order\<close>); ids may repeat freely, the sort
  is any that meets the contract of \<^verbatim>\<open>std::sort\<close>, and the index links each new entry
  at any place. Then no
  matching loop runs forever, and in the book reached every resting order has
  \<open>0 < remaining \<le> size\<close>, every resting order is in the id index under its id, and
  every entry of the id index is an order that rests exactly once, on one side.
\<close>

theorem C3_resting_orders_and_index:
  assumes srt: "std_sort_contract srt"
  shows
  "run_ops srt (h, new_book smb) ops \<noteq> Diverges \<and>
   (run_ops srt (h, new_book smb) ops = Finished (h', b') \<longrightarrow>
      (\<forall>a \<in> set (resting b'). 0 < remaining_size (h' a) \<and> remaining_size (h' a) \<le> size_o (h' a)) \<and>
      (\<forall>a \<in> set (resting b'). (order_id (h' a), a) \<in> set (order_map b')) \<and>
      (\<forall>e \<in> set (order_map b').
          count_list (buy_orders b') (snd e) + count_list (sell_orders b') (snd e) = 1))"
proof -
  note ri = run_ops_inv [OF srt book_inv_new, of h smb ops]
  have "?thesis" if fin: "run_ops srt (h, new_book smb) ops = Finished (h', b')"
  proof -
    from ri fin have inv: "book_inv h' b'" by blast
    note d = book_invD [OF inv]
    have 1: "\<forall>a \<in> set (resting b'). 0 < remaining_size (h' a) \<and> remaining_size (h' a) \<le> size_o (h' a)"
      using d(7) not_filled_remaining by blast
    have 2: "(order_id (h' a), a) \<in> set (order_map b')" if "a \<in> set (resting b')" for a
    proof -
      from that d(3) have "a \<in> snd ` set (order_map b')" by simp
      then obtain e where e: "e \<in> set (order_map b')" "snd e = a" by blast
      with d(4) have "fst e = order_id (h' a)" by blast
      with e show ?thesis by (metis prod.collapse)
    qed
    have 3: "count_list (buy_orders b') (snd e) + count_list (sell_orders b') (snd e) = 1"
      if "e \<in> set (order_map b')" for e
    proof -
      from that d(3) have "snd e \<in> set (resting b')" by force
      from count_list_distinct [OF d(1) this] show ?thesis by (simp add: resting_def)
    qed
    from 1 2 3 ri show ?thesis by blast
  qed
  with ri show ?thesis by blast
qed

lemma dup_run:
  "run_ops stable_sort (dup_store, new_book ''T'') dup_ops =
     Finished (dup_store_after, dup_book_after)"
proof -
  let ?b2 = "\<lparr>symbol_b = ''T'', buy_orders = [11, 10], sell_orders = [],
              order_map = [(''U'', 10), (''U'', 11)], last_update_time = 2\<rparr>"
  let ?h3 = "dup_store
          (12 := (limit_order ''S'' Sell ''T'' 150 10 3)\<lparr>filled_size := 150, status := Filled\<rparr>,
           11 := (limit_order ''U'' Buy ''T'' 200 11 2)\<lparr>filled_size := 150, status := PartiallyFilled\<rparr>)"
  have a1: "apply_op stable_sort (dup_store, new_book ''T'') (Add 10 0 1) =
      Finished (dup_store, \<lparr>symbol_b = ''T'', buy_orders = [10], sell_orders = [],
              order_map = [(''U'', 10)], last_update_time = 1\<rparr>)"
    by (simp add: add_order_def Let_def mm_insert_def sort_buy_orders_def stable_sort_def
        new_book_def resting_def is_filled_def dup_store_def limit_order_def)
  have a2: "apply_op stable_sort (dup_store, \<lparr>symbol_b = ''T'', buy_orders = [10], sell_orders = [],
              order_map = [(''U'', 10)], last_update_time = 1\<rparr>) (Add 11 0 2) = Finished (dup_store, ?b2)"
    by (simp add: add_order_def Let_def mm_insert_def sort_buy_orders_def stable_sort_def
        buy_before_def resting_def is_filled_def dup_store_def limit_order_def)
  have c: "crosses dup_store ?b2 12"
    by (simp add: crosses_def opposite_side_def price_matches_def is_filled_def dup_store_def
        limit_order_def)
  have mb: "match_body dup_store ?b2 12 3 =
      (?h3, ?b2, \<lparr>order_id_buy = ''U'', order_id_sell = ''S'', size_t = 150, price_t = 11,
                  timestamp_t = 3\<rparr>)"
    by (simp add: match_body_def Let_def opposite_side_def remaining_size_def fill_eq
        is_filled_def dup_store_def limit_order_def)
  have stop: "\<not> crosses ?h3 ?b2 12"
    by (simp add: crosses_def is_filled_def limit_order_def)
  have "match_loop dup_store ?b2 12 3 [] =
      match_loop ?h3 ?b2 12 3 ([] @ [\<lparr>order_id_buy = ''U'', order_id_sell = ''S'', size_t = 150,
         price_t = 11, timestamp_t = 3\<rparr>])"
    by (rule match_loop_step [OF c mb])
  also have "\<dots> = Some (?h3, ?b2, [] @ [\<lparr>order_id_buy = ''U'', order_id_sell = ''S'', size_t = 150,
         price_t = 11, timestamp_t = 3\<rparr>])"
    by (rule match_loop_stop [OF stop])
  finally have a3: "apply_op stable_sort (dup_store, ?b2) (Match 12 3) =
      Finished (?h3, ?b2\<lparr>last_update_time := 3\<rparr>)"
    by (simp add: match_order_def resting_def)
  have a4: "apply_op stable_sort (?h3, ?b2\<lparr>last_update_time := 3\<rparr>) (Cancel ''U'' 4) =
      Finished (?h3(10 := (limit_order ''U'' Buy ''T'' 100 10 1)\<lparr>status := Cancelled\<rparr>),
        \<lparr>symbol_b = ''T'', buy_orders = [11], sell_orders = [], order_map = [(''U'', 11)],
         last_update_time = 4\<rparr>)"
    by (simp add: cancel_order_def equal_range_def Let_def dup_store_def limit_order_def)
  show ?thesis
    unfolding dup_ops_def dup_store_after_def dup_book_after_def
    by (simp only: run_ops.simps a1 a2 a3 a4 outcome.case)
qed

theorem C3_witness:
  "std_sort_contract stable_sort \<and>
   run_ops stable_sort (dup_store, new_book ''T'') dup_ops = Finished (dup_store_after, dup_book_after) \<and>
   run_ops stable_sort (dup_store, new_book ''T'') dup_ops \<noteq> Diverges \<and>
   resting dup_book_after = [11] \<and> order_map dup_book_after = [(''U'', 11)] \<and>
   0 < remaining_size (dup_store_after 11) \<and>
   remaining_size (dup_store_after 11) \<le> size_o (dup_store_after 11) \<and>
   (order_id (dup_store_after 11), 11) \<in> set (order_map dup_book_after) \<and>
   count_list (buy_orders dup_book_after) 11 + count_list (sell_orders dup_book_after) 11 = 1"
proof -
  have r: "resting dup_book_after = [11]" and m: "order_map dup_book_after = [(''U'', 11)]"
    by (simp_all add: resting_def dup_book_after_def)
  from C3_resting_orders_and_index [OF stable_sort_contract,
      of dup_store "''T''" dup_ops dup_store_after dup_book_after]
    dup_run
  have "run_ops stable_sort (dup_store, new_book ''T'') dup_ops \<noteq> Diverges"
    and "\<forall>a \<in> set (resting dup_book_after).
      0 < remaining_size (dup_store_after a) \<and>
      remaining_size (dup_store_after a) \<le> size_o (dup_store_after a)"
    and "\<forall>a \<in> set (resting dup_book_after).
      (order_id (dup_store_after a), a) \<in> set (order_map dup_book_after)"
    and "\<forall>e \<in> set (order_map dup_book_after).
      count_list (buy_orders dup_book_after) (snd e) +
      count_list (sell_orders dup_book_after) (snd e) = 1"
    by blast+
  then show ?thesis
    using dup_run r m stable_sort_contract by simp
qed

section \<open>Who rests an order\<close>

lemma resting_add_order:
  assumes "std_sort_contract srt"
  shows "set (resting (add_order srt ahead h b ord now)) = insert ord (set (resting b))"
  by (auto simp: add_order_eq resting_def sort_buy [OF assms] sort_sell [OF assms])

lemma match_loop_filled_le:
  assumes "ord \<notin> set (opposite_side h b ord)"
  shows "\<exists>r. match_loop h b ord now trades = Some r \<and>
           (filled_size (h ord) \<le> size_o (h ord) \<longrightarrow>
              filled_size (fst r ord) \<le> size_o (fst r ord))"
  using assms
proof (rule match_loop_total_induct)
  fix h :: store and b :: OrderBook and trades :: "Trade list"
  show "filled_size (h ord) \<le> size_o (h ord) \<longrightarrow>
          filled_size (fst (h, b, trades) ord) \<le> size_o (fst (h, b, trades) ord)"
    by simp
next
  fix h b trades h' b' t r
  assume c: "crosses h b ord" and ni: "ord \<notin> set (opposite_side h b ord)"
    and mb: "match_body h b ord now = (h', b', t)"
    and ih: "filled_size (h' ord) \<le> size_o (h' ord) \<longrightarrow>
               filled_size (fst r ord) \<le> size_o (fst r ord)"
  let ?m = "hd (opposite_side h b ord)"
  let ?f = "min (remaining_size (h ord)) (remaining_size (h ?m))"
  from c have "opposite_side h b ord \<noteq> []" by (simp add: crosses_def)
  with ni have ne: "?m \<noteq> ord" by (cases "opposite_side h b ord") auto
  have ho: "h' ord = fill (h ord) ?f"
    using mb ne by (auto simp: match_body_def Let_def)
  show "filled_size (h ord) \<le> size_o (h ord) \<longrightarrow> filled_size (fst r ord) \<le> size_o (fst r ord)"
  proof
    assume le: "filled_size (h ord) \<le> size_o (h ord)"
    have "?f \<le> size_o (h ord) - filled_size (h ord)"
      by (simp add: remaining_size_def)
    from word_fill_le [OF le this] have "filled_size (h' ord) \<le> size_o (h' ord)"
      by (simp add: ho)
    with ih show "filled_size (fst r ord) \<le> size_o (fst r ord)" by simp
  qed
qed

lemma match_order_not_resting:
  assumes nr: "ord \<notin> set (resting b)"
  shows "\<exists>h' b' ts. match_order h b ord now = Some (h', b', ts) \<and>
           set (resting b') \<subseteq> set (resting b) \<and> set (order_map b') \<subseteq> set (order_map b) \<and>
           (filled_size (h ord) \<le> size_o (h ord) \<longrightarrow> filled_size (h' ord) \<le> size_o (h' ord))"
proof -
  have ni: "ord \<notin> set (opposite_side h b ord)"
    using nr opposite_side_resting by blast
  from match_loop_subset [OF ni, of now "[]"] match_loop_filled_le [OF ni, of now "[]"]
  obtain h' b' ts where r: "match_loop h b ord now [] = Some (h', b', ts)"
    "set (buy_orders b') \<subseteq> set (buy_orders b)" "set (sell_orders b') \<subseteq> set (sell_orders b)"
    "set (order_map b') \<subseteq> set (order_map b)"
    "filled_size (h ord) \<le> size_o (h ord) \<longrightarrow> filled_size (h' ord) \<le> size_o (h' ord)"
    by fastforce
  have "match_order h b ord now = Some (h', b'\<lparr>last_update_time := now\<rparr>, ts)"
    by (simp add: match_order_def r(1))
  moreover have "set (resting (b'\<lparr>last_update_time := now\<rparr>)) \<subseteq> set (resting b)"
    using r(2,3) by (auto simp: resting_def)
  ultimately show ?thesis using r(4,5) by auto
qed

lemma filled_le_remaining:
  "filled_size x \<le> size_o x \<Longrightarrow> \<not> is_filled x \<longleftrightarrow> 0 < remaining_size x"
  unfolding is_filled_def remaining_size_def
  by (auto simp: word_neq_0_conv [symmetric])

text \<open>
  Claim C4. \<open>match_order\<close> never puts the incoming order into the book: an order object
  that is neither on a side nor in the id index before the call is on no side and not
  in the index after it (and the call returns). For an engine whose next new order
  object does not rest in the target book, \<open>place_limit_order\<close> leaves the new order
  resting exactly when its remaining quantity after matching is above zero, and
  \<open>place_market_order\<close> never leaves it resting. This holds with every sort that
  meets the contract of \<^verbatim>\<open>std::sort\<close> and wherever the indexes link a new entry.
\<close>

theorem C4_only_the_engine_rests_an_order:
  assumes srt: "std_sort_contract srt"
    and bk: "order_books e smb = Some book"
    and fresh: "next_addr e \<notin> set (resting book)"
  shows
    "(ord \<notin> set (resting b) \<and> ord \<notin> snd ` set (order_map b) \<longrightarrow>
        (\<exists>h' b' ts. match_order h b ord now = Some (h', b', ts) \<and>
           ord \<notin> set (resting b') \<and> ord \<notin> snd ` set (order_map b'))) \<and>
     (\<exists>e' ts. place_limit_order srt ia ba e smb oid sd sz prc stamp now = Some (e', ts) \<and>
        (next_addr e \<in> set (resting (book_of e' smb)) \<longleftrightarrow>
           0 < remaining_size (objects e' (next_addr e)))) \<and>
     (\<exists>e' ts. place_market_order e smb oid sd sz stamp now = Some (e', ts) \<and>
        next_addr e \<notin> set (resting (book_of e' smb)))"
proof (intro conjI impI)
  assume a: "ord \<notin> set (resting b) \<and> ord \<notin> snd ` set (order_map b)"
  then have nr: "ord \<notin> set (resting b)" by simp
  from match_order_not_resting [OF nr, of h now]
  obtain h' b' ts where "match_order h b ord now = Some (h', b', ts)"
    "set (resting b') \<subseteq> set (resting b)" "set (order_map b') \<subseteq> set (order_map b)"
    by blast
  with a show "\<exists>h' b' ts. match_order h b ord now = Some (h', b', ts) \<and>
           ord \<notin> set (resting b') \<and> ord \<notin> snd ` set (order_map b')"
    by blast
next
  let ?ord = "next_addr e"
  let ?h = "(objects e)(?ord := limit_order oid sd smb sz prc stamp)"
  have le: "filled_size (?h ?ord) \<le> size_o (?h ?ord)" by (simp add: limit_order_def)
  from match_order_not_resting [OF fresh, of ?h now] le
  obtain h1 b1 ts where m: "match_order ?h book ?ord now = Some (h1, b1, ts)"
    and sub: "set (resting b1) \<subseteq> set (resting book)"
    and le1: "filled_size (h1 ?ord) \<le> size_o (h1 ?ord)"
    by blast
  from sub fresh have nr1: "?ord \<notin> set (resting b1)" by blast
  let ?b2 = "if \<not> is_filled (h1 ?ord) then add_order srt ba h1 b1 ?ord now else b1"
  have "\<exists>e'. place_limit_order srt ia ba e smb oid sd sz prc stamp now = Some (e', ts) \<and>
          objects e' = h1 \<and> order_books e' smb = Some ?b2"
    by (simp add: place_limit_order_def bk Let_def m)
  then obtain e' where p: "place_limit_order srt ia ba e smb oid sd sz prc stamp now = Some (e', ts)"
    and e': "objects e' = h1" "order_books e' smb = Some ?b2"
    by blast
  have "?ord \<in> set (resting ?b2) \<longleftrightarrow> 0 < remaining_size (h1 ?ord)"
    using nr1 filled_le_remaining [OF le1] by (simp add: resting_add_order [OF srt])
  then have "?ord \<in> set (resting (book_of e' smb)) \<longleftrightarrow> 0 < remaining_size (objects e' ?ord)"
    by (simp add: book_of_def e')
  with p show "\<exists>e' ts. place_limit_order srt ia ba e smb oid sd sz prc stamp now = Some (e', ts) \<and>
        (next_addr e \<in> set (resting (book_of e' smb)) \<longleftrightarrow>
           0 < remaining_size (objects e' (next_addr e)))"
    by blast
next
  let ?ord = "next_addr e"
  let ?h = "(objects e)(?ord := market_order oid sd smb sz stamp)"
  from match_order_not_resting [OF fresh, of ?h now]
  obtain h1 b1 ts where m: "match_order ?h book ?ord now = Some (h1, b1, ts)"
    and sub: "set (resting b1) \<subseteq> set (resting book)"
    by blast
  from sub fresh have nr1: "?ord \<notin> set (resting b1)" by blast
  have "\<exists>e'. place_market_order e smb oid sd sz stamp now = Some (e', ts) \<and>
          order_books e' smb = Some b1"
    by (simp add: place_market_order_def bk Let_def m)
  then obtain e' where p: "place_market_order e smb oid sd sz stamp now = Some (e', ts)"
    and e': "order_books e' smb = Some b1"
    by blast
  have "?ord \<notin> set (resting (book_of e' smb))"
    using nr1 by (simp add: book_of_def e')
  with p show "\<exists>e' ts. place_market_order e smb oid sd sz stamp now = Some (e', ts) \<and>
        next_addr e \<notin> set (resting (book_of e' smb))"
    by blast
qed

theorem C4_witness:
  "std_sort_contract stable_sort \<and>
   order_books ex_engine ''T'' = Some ex_book \<and>
   next_addr ex_engine \<notin> set (resting ex_book) \<and>
   3 \<notin> set (resting ex_book) \<and> 3 \<notin> snd ` set (order_map ex_book) \<and>
   (\<exists>h' b' ts. match_order ex_store ex_book 3 9 = Some (h', b', ts) \<and>
      3 \<notin> set (resting b') \<and> 3 \<notin> snd ` set (order_map b')) \<and>
   (\<exists>e' ts. place_limit_order stable_sort 0 0 ex_engine ''T'' ''B9'' Buy 400 10 5 9 = Some (e', ts) \<and>
      (next_addr ex_engine \<in> set (resting (book_of e' ''T'')) \<longleftrightarrow>
         0 < remaining_size (objects e' (next_addr ex_engine)))) \<and>
   (\<exists>e' ts. place_market_order ex_engine ''T'' ''B9'' Buy 400 5 9 = Some (e', ts) \<and>
      next_addr ex_engine \<notin> set (resting (book_of e' ''T'')))"
proof -
  have b: "order_books ex_engine ''T'' = Some ex_book"
    by (simp add: ex_engine_def)
  have f: "next_addr ex_engine \<notin> set (resting ex_book)"
    by (simp add: ex_engine_def ex_book_def resting_def)
  have n: "3 \<notin> set (resting ex_book) \<and> 3 \<notin> snd ` set (order_map ex_book)"
    by (simp add: ex_book_def resting_def)
  from C4_only_the_engine_rests_an_order
    [OF stable_sort_contract b f, where ord = 3 and b = ex_book and h = ex_store and now = 9
      and oid = "''B9''" and sd = Buy and sz = 400 and prc = 10 and stamp = 5
      and ia = 0 and ba = 0]
    b f n stable_sort_contract
  show ?thesis by blast
qed

section \<open>Cancelling an id that several resting orders share\<close>

lemma equal_range_append:
  "equal_range k (m @ m') = equal_range k m @ equal_range k m'"
  by (simp add: equal_range_def)



lemma equal_range_take_drop:
  "equal_range k m = equal_range k (take n m) @ equal_range k (drop n m)"
  by (metis append_take_drop_id equal_range_append)

lemma equal_range_insert_at:
  "equal_range k' (take n m @ (k, v) # drop n m) =
     (if k' = k
      then take (length (equal_range k (take n m))) (equal_range k m) @ v #
           drop (length (equal_range k (take n m))) (equal_range k m)
      else equal_range k' m)"
proof -
  have c: "equal_range k' ((k, v) # ys) = (if k' = k then v # equal_range k' ys else equal_range k' ys)"
    for ys
    by (simp add: equal_range_def)
  show ?thesis
    by (simp add: equal_range_append c equal_range_take_drop [of _ m n])
qed

lemma equal_range_mm_insert:
  "\<exists>j \<le> length (equal_range k m).
     equal_range k (mm_insert a k v m) = take j (equal_range k m) @ v # drop j (equal_range k m)"
proof -
  let ?j = "length (equal_range k (take (length m - a) m))"
  have "?j \<le> length (equal_range k m)"
    by (simp add: equal_range_take_drop [of k m "length m - a"])
  then show ?thesis
    unfolding mm_insert_def equal_range_insert_at by (intro exI [of _ ?j]) simp
qed

text \<open>Every place among the older entries of the key is the result of some input.\<close>

lemma equal_range_prefix:
  "j \<le> length (equal_range k m) \<Longrightarrow>
     \<exists>n \<le> length m. length (equal_range k (take n m)) = j"
proof (induction m arbitrary: j)
  case Nil
  then show ?case by (simp add: equal_range_def)
next
  case (Cons e m)
  show ?case
  proof (cases j)
    case 0
    then show ?thesis by (intro exI [of _ 0]) (simp add: equal_range_def)
  next
    case (Suc i)
    show ?thesis
    proof (cases "fst e = k")
      case True
      with Cons.prems Suc have "i \<le> length (equal_range k m)" by (simp add: equal_range_def)
      from Cons.IH [OF this] obtain n where "n \<le> length m" "length (equal_range k (take n m)) = i"
        by blast
      with True Suc show ?thesis by (intro exI [of _ "Suc n"]) (simp add: equal_range_def)
    next
      case False
      with Cons.prems have "j \<le> length (equal_range k m)" by (simp add: equal_range_def)
      from Cons.IH [OF this] obtain n where "n \<le> length m" "length (equal_range k (take n m)) = j"
        by blast
      with False show ?thesis by (intro exI [of _ "Suc n"]) (simp add: equal_range_def)
    qed
  qed
qed

lemma mm_insert_any_place:
  assumes "j \<le> length (equal_range k m)"
  shows "\<exists>a. equal_range k (mm_insert a k v m) =
           take j (equal_range k m) @ v # drop j (equal_range k m)"
proof -
  from equal_range_prefix [OF assms] obtain n where n: "n \<le> length m"
    and l: "length (equal_range k (take n m)) = j" by blast
  from n have "length m - (length m - n) = n" by simp
  then have "equal_range k (mm_insert (length m - n) k v m) =
           take j (equal_range k m) @ v # drop j (equal_range k m)"
    unfolding mm_insert_def by (simp only: equal_range_insert_at l) simp
  then show ?thesis by blast
qed

lemma equal_range_mm_insert_other:
  "k' \<noteq> k \<Longrightarrow> equal_range k' (mm_insert a k v m) = equal_range k' m"
  by (simp add: mm_insert_def equal_range_insert_at)

lemma equal_range_mm_insert_fresh:
  "equal_range k m = [] \<Longrightarrow> equal_range k (mm_insert a k v m) = [v]"
  using equal_range_mm_insert [of k m a v] by auto

lemma equal_range_nil_iff: "equal_range k m = [] \<longleftrightarrow> (\<forall>e \<in> set m. fst e \<noteq> k)"
  by (auto simp: equal_range_def filter_empty_conv)

lemma mm_erase_first_mid:
  "equal_range k xs = [] \<Longrightarrow> mm_erase_first k (xs @ (k, v) # ys) = xs @ ys"
  by (induction xs) (auto simp: equal_range_def split: if_splits)

lemma mm_erase_first_mm_insert:
  assumes "equal_range k m = []"
  shows "mm_erase_first k (mm_insert a k v m) = m"
proof -
  from assms have "equal_range k (take (length m - a) m) = []"
    unfolding equal_range_nil_iff by (auto dest: in_set_takeD)
  then show ?thesis
    by (simp add: mm_insert_def mm_erase_first_mid)
qed












lemma match_loop_cross:
  "crosses h b ord \<Longrightarrow>
   match_loop h b ord now ts =
     (case match_body h b ord now of (h', b', t) \<Rightarrow> match_loop h' b' ord now (ts @ [t]))"
  by (subst match_loop.simps) simp

lemmas eval_defs =
  place_limit_order_def match_order_def match_loop_cross match_loop_stop crosses_def
  match_body_def opposite_side_def price_matches_def remove_head_def add_order_def
  mm_insert_def sort_buy_orders_def sort_sell_orders_def stable_sort_def buy_before_def
  sell_before_def is_filled_def remaining_size_def fill_eq limit_order_def
  notify_trade_def Let_def








section \<open>Adding an order and cancelling it\<close>

lemma sorted_perm_unique:
  assumes "sorted_wrt (\<lambda>a b. \<not> lt b a) xs" and "sorted_wrt (\<lambda>a b. \<not> lt b a) ys"
    and "mset xs = mset ys"
    and "\<forall>a \<in> set xs. \<forall>b \<in> set xs. a \<noteq> b \<longrightarrow> lt a b \<or> lt b a"
  shows "xs = ys"
  using assms
proof (induction xs arbitrary: ys)
  case Nil
  then show ?case by simp
next
  case (Cons x xs)
  from Cons.prems(3) obtain y ys' where ys: "ys = y # ys'" by (cases ys) auto
  have se: "set (x # xs) = set (y # ys')"
    using Cons.prems(3) ys mset_eq_setD by blast
  have xy: "x = y"
  proof (rule ccontr)
    assume ne: "x \<noteq> y"
    with se have yx: "y \<in> set xs" and xy': "x \<in> set ys'" by auto
    from yx Cons.prems(1) have 1: "\<not> lt y x" by auto
    from xy' Cons.prems(2) ys have 2: "\<not> lt x y" by auto
    from Cons.prems(4) ne yx have "lt x y \<or> lt y x" by auto
    with 1 2 show False by blast
  qed
  with Cons.prems(3) ys have m: "mset xs = mset ys'" by simp
  have "xs = ys'"
    using Cons.prems(1,2,4) ys by (intro Cons.IH [OF _ _ m]) auto
  with xy ys show ?case by simp
qed

lemma sort_round_trip:
  assumes c: "std_sort_contract srt" and sw: "strict_weak_order lt"
  shows "mset (remove1 x (srt lt (xs @ [x]))) = mset xs"
    and "sorted_wrt (\<lambda>a b. \<not> lt b a) (remove1 x (srt lt (xs @ [x])))"
    and "sorted_wrt (\<lambda>a b. \<not> lt b a) xs \<Longrightarrow>
         \<forall>a \<in> set xs. \<forall>b \<in> set xs. a \<noteq> b \<longrightarrow> lt a b \<or> lt b a \<Longrightarrow>
         remove1 x (srt lt (xs @ [x])) = xs"
proof -
  note k = std_sort_contractD [OF c sw]
  show m: "mset (remove1 x (srt lt (xs @ [x]))) = mset xs"
    by (simp add: k(1))
  show s: "sorted_wrt (\<lambda>a b. \<not> lt b a) (remove1 x (srt lt (xs @ [x])))"
    by (rule sorted_wrt_remove1) (rule k(2))
  assume "sorted_wrt (\<lambda>a b. \<not> lt b a) xs"
    and "\<forall>a \<in> set xs. \<forall>b \<in> set xs. a \<noteq> b \<longrightarrow> lt a b \<or> lt b a"
  from sorted_perm_unique [OF this(1) s m [symmetric] this(2)]
  show "remove1 x (srt lt (xs @ [x])) = xs" by simp
qed

lemma sort_filter_round_trip:
  assumes c: "std_sort_contract srt" and sw: "strict_weak_order lt"
    and s: "sorted_wrt (\<lambda>a b. \<not> lt b a) xs"
    and tot: "\<forall>a \<in> set xs. \<forall>b \<in> set xs. a \<noteq> b \<longrightarrow> lt a b \<or> lt b a"
    and px: "\<not> P x" and pxs: "\<forall>a \<in> set xs. P a"
  shows "filter P (srt lt (xs @ [x])) = xs"
proof -
  note k = std_sort_contractD [OF c sw]
  have fx: "filter P xs = xs" using pxs by (simp add: filter_id_conv)
  have "mset (filter P (srt lt (xs @ [x]))) = filter_mset P (mset (srt lt (xs @ [x])))"
    by (rule mset_filter)
  also have "\<dots> = filter_mset P (mset (xs @ [x]))"
    by (simp only: k(1))
  also have "\<dots> = mset (filter P xs)"
    using px by simp
  finally have m: "mset (filter P (srt lt (xs @ [x]))) = mset xs"
    by (simp only: fx)
  have so: "sorted_wrt (\<lambda>a b. \<not> lt b a) (filter P (srt lt (xs @ [x])))"
    by (rule sorted_wrt_filter) (rule k(2))
  from sorted_perm_unique [OF s so m [symmetric] tot] show ?thesis by simp
qed

lemma no_ties_buy:
  "no_ties h xs \<Longrightarrow> \<forall>a \<in> set xs. \<forall>b \<in> set xs. a \<noteq> b \<longrightarrow> buy_before h a b \<or> buy_before h b a"
  unfolding no_ties_def buy_before_def by (auto simp: not_less_iff_gr_or_eq)

lemma no_ties_sell:
  "no_ties h xs \<Longrightarrow> \<forall>a \<in> set xs. \<forall>b \<in> set xs. a \<noteq> b \<longrightarrow> sell_before h a b \<or> sell_before h b a"
  unfolding no_ties_def sell_before_def by (auto simp: not_less_iff_gr_or_eq)

lemma add_cancel_order:
  assumes c: "std_sort_contract srt" and inv: "book_inv h b" and nr: "x \<notin> set (resting b)"
    and fresh_id: "equal_range (order_id (h x)) (order_map b) = []"
  shows "\<exists>h' b'. cancel_order h (add_order srt ahead h b x now) (order_id (h x)) now' =
                   (h', b', True) \<and>
           (\<forall>a. a \<noteq> x \<longrightarrow> h' a = h a) \<and>
           order_map b' = order_map b \<and>
           mset (buy_orders b') = mset (buy_orders b) \<and>
           mset (sell_orders b') = mset (sell_orders b) \<and>
           sorted_wrt (\<lambda>p q. \<not> buy_before h q p) (buy_orders b') \<and>
           sorted_wrt (\<lambda>p q. \<not> sell_before h q p) (sell_orders b') \<and>
           (no_ties h (if side (h x) = Buy then buy_orders b else sell_orders b) \<longrightarrow>
              b' = b\<lparr>last_update_time := now'\<rparr>)"
proof -
  let ?oid = "order_id (h x)"
  let ?h = "h(x := (h x)\<lparr>status := Cancelled\<rparr>)"
  note d = book_invD [OF inv]
  have er: "equal_range ?oid (mm_insert ahead ?oid x (order_map b)) = [x]"
    using fresh_id by (rule equal_range_mm_insert_fresh)
  note me = mm_erase_first_mm_insert [OF fresh_id, of ahead x]
  show ?thesis
  proof (cases "side (h x) = Buy")
    case True
    let ?bs = "remove1 x (srt (buy_before h) (buy_orders b @ [x]))"
    note rt = sort_round_trip [OF c strict_weak_buy_before [of h], where x = x and xs = "buy_orders b"]
    have co: "cancel_order h (add_order srt ahead h b x now) ?oid now' =
        (?h, b\<lparr>buy_orders := ?bs, last_update_time := now'\<rparr>, True)"
      unfolding add_order_eq cancel_order_def
      by (simp add: True er Let_def me)
    have "no_ties h (buy_orders b) \<longrightarrow> ?bs = buy_orders b"
      using rt(3) [OF d(8)] no_ties_buy by blast
    then have "no_ties h (if side (h x) = Buy then buy_orders b else sell_orders b) \<longrightarrow>
        b\<lparr>buy_orders := ?bs, last_update_time := now'\<rparr> = b\<lparr>last_update_time := now'\<rparr>"
      using True by auto
    with co rt(1,2) d(9) show ?thesis by auto
  next
    case False
    let ?ss = "remove1 x (srt (sell_before h) (sell_orders b @ [x]))"
    note rt = sort_round_trip [OF c strict_weak_sell_before [of h], where x = x and xs = "sell_orders b"]
    have co: "cancel_order h (add_order srt ahead h b x now) ?oid now' =
        (?h, b\<lparr>sell_orders := ?ss, last_update_time := now'\<rparr>, True)"
      unfolding add_order_eq cancel_order_def
      by (simp add: False er Let_def me)
    have "no_ties h (sell_orders b) \<longrightarrow> ?ss = sell_orders b"
      using rt(3) [OF d(9)] no_ties_sell by blast
    then have "no_ties h (if side (h x) = Buy then buy_orders b else sell_orders b) \<longrightarrow>
        b\<lparr>sell_orders := ?ss, last_update_time := now'\<rparr> = b\<lparr>last_update_time := now'\<rparr>"
      using False by auto
    with co rt(1,2) d(8) show ?thesis by auto
  qed
qed

lemma cancel_order1_present:
  assumes "order_map1 b oid = Some ord"
  shows "cancel_order1 h b oid now =
     (h(ord := (h ord)\<lparr>status := Cancelled\<rparr>),
      (if side (h ord) = Buy
       then b\<lparr>buy_orders1 := filter (\<lambda>a. order_id (h a) \<noteq> oid) (buy_orders1 b),
              order_map1 := (order_map1 b)(oid := None), last_update_time1 := now\<rparr>
       else b\<lparr>sell_orders1 := filter (\<lambda>a. order_id (h a) \<noteq> oid) (sell_orders1 b),
              order_map1 := (order_map1 b)(oid := None), last_update_time1 := now\<rparr>),
      True)"
proof -
  have e: "order_id ((h(ord := (h ord)\<lparr>status := Cancelled\<rparr>)) a) = order_id (h a)" for a
    by simp
  have sd: "side ((h(ord := (h ord)\<lparr>status := Cancelled\<rparr>)) ord) = side (h ord)"
    by simp
  show ?thesis
    unfolding cancel_order1_def
    by (simp add: assms Let_def e sd del: fun_upd_apply)
qed


lemma add_order1_eq:
  "add_order1 srt h b x now =
     (if side (h x) = Buy
      then b\<lparr>order_map1 := (order_map1 b)(order_id (h x) \<mapsto> x),
             buy_orders1 := srt (buy_before h) (buy_orders1 b @ [x]), last_update_time1 := now\<rparr>
      else b\<lparr>order_map1 := (order_map1 b)(order_id (h x) \<mapsto> x),
             sell_orders1 := srt (sell_before h) (sell_orders1 b @ [x]), last_update_time1 := now\<rparr>)"
  by (simp add: add_order1_def Let_def)

lemma add_cancel_order1:
  assumes c: "std_sort_contract srt"
    and sb: "sorted_wrt (\<lambda>a b. \<not> buy_before h b a) (buy_orders1 b)"
    and ss: "sorted_wrt (\<lambda>a b. \<not> sell_before h b a) (sell_orders1 b)"
    and ni: "order_map1 b (order_id (h x)) = None"
    and ids: "\<forall>a \<in> set (buy_orders1 b @ sell_orders1 b). order_id (h a) \<noteq> order_id (h x)"
    and nt: "no_ties h (if side (h x) = Buy then buy_orders1 b else sell_orders1 b)"
  shows "cancel_order1 h (add_order1 srt h b x now) (order_id (h x)) now' =
           (h(x := (h x)\<lparr>status := Cancelled\<rparr>), b\<lparr>last_update_time1 := now'\<rparr>, True)"
proof -
  let ?oid = "order_id (h x)"
  let ?b = "add_order1 srt h b x now"
  have lk: "order_map1 ?b ?oid = Some x"
    by (simp add: add_order1_eq)
  have m: "(order_map1 ?b)(?oid := None) = order_map1 b"
    using ni by (simp add: add_order1_eq fun_upd_idem)
  have fb: "filter (\<lambda>a. order_id (h a) \<noteq> ?oid) (srt (buy_before h) (buy_orders1 b @ [x])) = buy_orders1 b"
    if "side (h x) = Buy"
    using ids nt that
    by (intro sort_filter_round_trip [OF c strict_weak_buy_before sb no_ties_buy]) auto
  have fs: "filter (\<lambda>a. order_id (h a) \<noteq> ?oid) (srt (sell_before h) (sell_orders1 b @ [x])) = sell_orders1 b"
    if "side (h x) \<noteq> Buy"
    using ids nt that
    by (intro sort_filter_round_trip [OF c strict_weak_sell_before ss no_ties_sell]) auto
  show ?thesis
    unfolding cancel_order1_present [OF lk] m
    by (cases "side (h x) = Buy") (simp_all add: add_order1_eq fb fs)
qed

text \<open>
  Claim C7 (as amended). Take a well-formed book, an order object that does not rest in
  it and whose id the id index does not hold, and any sort that meets the contract of
  \<^verbatim>\<open>std::sort\<close>. Adding the order and then cancelling its id returns true, touches no
  other order object and leaves the id index as it was before the add; either side
  holds the orders it held, sorted. When no two resting orders of the side of the new
  order agree in both price and timestamp, the side stands as it stood: the book
  differs from the one before only in \<open>last_update_time\<close>. The last holds in the first
  revision as well, for a book with sorted sides in which neither a side nor the id
  index holds the id.
\<close>

theorem C7_add_then_cancel:
  assumes srt: "std_sort_contract srt"
  shows
  "(book_inv h b \<and> x \<notin> set (resting b) \<and> equal_range (order_id (h x)) (order_map b) = [] \<longrightarrow>
      (\<exists>h' b'. cancel_order h (add_order srt ahead h b x now) (order_id (h x)) now' =
                   (h', b', True) \<and>
           (\<forall>a. a \<noteq> x \<longrightarrow> h' a = h a) \<and>
           order_map b' = order_map b \<and>
           mset (buy_orders b') = mset (buy_orders b) \<and>
           mset (sell_orders b') = mset (sell_orders b) \<and>
           sorted_wrt (\<lambda>p q. \<not> buy_before h q p) (buy_orders b') \<and>
           sorted_wrt (\<lambda>p q. \<not> sell_before h q p) (sell_orders b') \<and>
           (no_ties h (if side (h x) = Buy then buy_orders b else sell_orders b) \<longrightarrow>
              b' = b\<lparr>last_update_time := now'\<rparr>))) \<and>
   (sorted_wrt (\<lambda>p q. \<not> buy_before h q p) (buy_orders1 c) \<and>
    sorted_wrt (\<lambda>p q. \<not> sell_before h q p) (sell_orders1 c) \<and>
    order_map1 c (order_id (h x)) = None \<and>
    (\<forall>a \<in> set (buy_orders1 c @ sell_orders1 c). order_id (h a) \<noteq> order_id (h x)) \<and>
    no_ties h (if side (h x) = Buy then buy_orders1 c else sell_orders1 c) \<longrightarrow>
      (\<exists>h'. cancel_order1 h (add_order1 srt h c x now) (order_id (h x)) now' =
                (h', c\<lparr>last_update_time1 := now'\<rparr>, True) \<and>
             (\<forall>a. a \<noteq> x \<longrightarrow> h' a = h a)))"
proof (intro conjI impI)
  assume "book_inv h b \<and> x \<notin> set (resting b) \<and> equal_range (order_id (h x)) (order_map b) = []"
  then show "\<exists>h' b'. cancel_order h (add_order srt ahead h b x now) (order_id (h x)) now' =
                   (h', b', True) \<and>
           (\<forall>a. a \<noteq> x \<longrightarrow> h' a = h a) \<and>
           order_map b' = order_map b \<and>
           mset (buy_orders b') = mset (buy_orders b) \<and>
           mset (sell_orders b') = mset (sell_orders b) \<and>
           sorted_wrt (\<lambda>p q. \<not> buy_before h q p) (buy_orders b') \<and>
           sorted_wrt (\<lambda>p q. \<not> sell_before h q p) (sell_orders b') \<and>
           (no_ties h (if side (h x) = Buy then buy_orders b else sell_orders b) \<longrightarrow>
              b' = b\<lparr>last_update_time := now'\<rparr>)"
    using add_cancel_order [OF srt, of h b x ahead now now'] by blast
next
  assume a: "sorted_wrt (\<lambda>p q. \<not> buy_before h q p) (buy_orders1 c) \<and>
    sorted_wrt (\<lambda>p q. \<not> sell_before h q p) (sell_orders1 c) \<and>
    order_map1 c (order_id (h x)) = None \<and>
    (\<forall>a \<in> set (buy_orders1 c @ sell_orders1 c). order_id (h a) \<noteq> order_id (h x)) \<and>
    no_ties h (if side (h x) = Buy then buy_orders1 c else sell_orders1 c)"
  then have "cancel_order1 h (add_order1 srt h c x now) (order_id (h x)) now' =
           (h(x := (h x)\<lparr>status := Cancelled\<rparr>), c\<lparr>last_update_time1 := now'\<rparr>, True)"
    by (intro add_cancel_order1 [OF srt]) simp_all
  then show "\<exists>h'. cancel_order1 h (add_order1 srt h c x now) (order_id (h x)) now' =
                (h', c\<lparr>last_update_time1 := now'\<rparr>, True) \<and>
             (\<forall>a. a \<noteq> x \<longrightarrow> h' a = h a)"
    by simp
qed

lemma ex_book_inv: "book_inv ex_store ex_book"
proof -
  have "run_ops stable_sort (ex_store, new_book ''T'') [Add 0 0 1, Add 1 0 2, Add 2 0 3] = Finished (ex_store, ex_book)"
    by (simp add: add_order_def Let_def mm_insert_def sort_sell_orders_def stable_sort_def
        sell_before_def new_book_def resting_def is_filled_def ex_store_def limit_order_def
        ex_book_def)
  with run_ops_inv [OF stable_sort_contract book_inv_new, of ex_store "''T''" "[Add 0 0 1, Add 1 0 2, Add 2 0 3]"]
  show ?thesis by blast
qed

lemma ex_more_inv: "book_inv ex_store_more ex_book"
proof -
  have "run_ops stable_sort (ex_store_more, new_book ''T'') [Add 0 0 1, Add 1 0 2, Add 2 0 3] =
      Finished (ex_store_more, ex_book)"
    by (simp add: add_order_def Let_def mm_insert_def sort_sell_orders_def stable_sort_def
        sell_before_def new_book_def resting_def is_filled_def ex_store_more_def ex_store_def
        limit_order_def ex_book_def)
  with run_ops_inv [OF stable_sort_contract book_inv_new, of ex_store_more "''T''"
      "[Add 0 0 1, Add 1 0 2, Add 2 0 3]"]
  show ?thesis by blast
qed

theorem C7_witness:
  "std_sort_contract stable_sort \<and>
   book_inv ex_store_more ex_book \<and> 4 \<notin> set (resting ex_book) \<and>
   order_id (ex_store_more 4) = ''S4'' \<and> side (ex_store_more 4) = Sell \<and>
   equal_range ''S4'' (order_map ex_book) = [] \<and>
   sell_orders ex_book = [2, 0, 1] \<and> no_ties ex_store_more [2, 0, 1] \<and>
   (\<exists>h'. cancel_order ex_store_more (add_order stable_sort 0 ex_store_more ex_book 4 6) ''S4'' 7 =
            (h', ex_book\<lparr>last_update_time := 7\<rparr>, True) \<and> h' 0 = ex_store_more 0) \<and>
   sorted_wrt (\<lambda>p q. \<not> buy_before ex_store_more q p) (buy_orders1 ex_book1) \<and>
   sorted_wrt (\<lambda>p q. \<not> sell_before ex_store_more q p) (sell_orders1 ex_book1) \<and>
   order_map1 ex_book1 ''S4'' = None \<and> sell_orders1 ex_book1 = [2, 0, 1] \<and>
   (\<exists>h'. cancel_order1 ex_store_more (add_order1 stable_sort ex_store_more ex_book1 4 6) ''S4'' 7 =
            (h', ex_book1\<lparr>last_update_time1 := 7\<rparr>, True) \<and> h' 0 = ex_store_more 0)"
proof -
  have nr: "4 \<notin> set (resting ex_book)"
    by (simp add: ex_book_def resting_def)
  have i: "order_id (ex_store_more 4) = ''S4''" and sd: "side (ex_store_more 4) = Sell"
    by (simp_all add: ex_store_more_def limit_order_def)
  have f: "equal_range ''S4'' (order_map ex_book) = []"
    by (simp add: equal_range_def ex_book_def)
  have so: "sell_orders ex_book = [2, 0, 1]" and so1: "sell_orders1 ex_book1 = [2, 0, 1]"
    by (simp_all add: ex_book_def ex_book1_def)
  have nt: "no_ties ex_store_more [2, 0, 1]"
    by (simp add: no_ties_def ex_store_more_def ex_store_def limit_order_def)
  have s1: "sorted_wrt (\<lambda>p q. \<not> buy_before ex_store_more q p) (buy_orders1 ex_book1)"
    and s2: "sorted_wrt (\<lambda>p q. \<not> sell_before ex_store_more q p) (sell_orders1 ex_book1)"
    and n1: "order_map1 ex_book1 ''S4'' = None"
    and i1: "\<forall>a \<in> set (buy_orders1 ex_book1 @ sell_orders1 ex_book1).
               order_id (ex_store_more a) \<noteq> ''S4''"
    by (simp_all add: ex_book1_def sell_before_def ex_store_more_def ex_store_def limit_order_def)
  note t = C7_add_then_cancel [OF stable_sort_contract, where h = ex_store_more and b = ex_book
      and x = 4 and ahead = 0 and now = 6 and now' = 7 and c = ex_book1, unfolded i]
  from t ex_more_inv nr f
  obtain h' b' where
    c: "cancel_order ex_store_more (add_order stable_sort 0 ex_store_more ex_book 4 6) ''S4'' 7 =
            (h', b', True)"
    and fr: "\<forall>a. a \<noteq> 4 \<longrightarrow> h' a = ex_store_more a"
    and eq: "no_ties ex_store_more (if side (ex_store_more 4) = Buy then buy_orders ex_book
               else sell_orders ex_book) \<longrightarrow> b' = ex_book\<lparr>last_update_time := 7\<rparr>"
    by blast
  from eq nt have "b' = ex_book\<lparr>last_update_time := 7\<rparr>" by (simp add: sd so)
  with c fr
  have 1: "\<exists>h'. cancel_order ex_store_more (add_order stable_sort 0 ex_store_more ex_book 4 6) ''S4'' 7 =
            (h', ex_book\<lparr>last_update_time := 7\<rparr>, True) \<and> h' 0 = ex_store_more 0"
    by auto
  have nt1: "no_ties ex_store_more (if side (ex_store_more 4) = Buy then buy_orders1 ex_book1
               else sell_orders1 ex_book1)"
    using nt by (simp add: sd so1)
  from t s1 s2 n1 i1 nt1
  obtain h1 where
    "cancel_order1 ex_store_more (add_order1 stable_sort ex_store_more ex_book1 4 6) ''S4'' 7 =
            (h1, ex_book1\<lparr>last_update_time1 := 7\<rparr>, True)" "\<forall>a. a \<noteq> 4 \<longrightarrow> h1 a = ex_store_more a"
    by blast
  then have 2: "\<exists>h'. cancel_order1 ex_store_more (add_order1 stable_sort ex_store_more ex_book1 4 6) ''S4'' 7 =
            (h', ex_book1\<lparr>last_update_time1 := 7\<rparr>, True) \<and> h' 0 = ex_store_more 0"
    by auto
  from stable_sort_contract ex_more_inv nr i sd f so nt 1 s1 s2 n1 so1 2 show ?thesis by blast
qed

text \<open>
  The claim as stated fails when a resting order already has the id. The example book
  holds the sells S3, S1, S2 at addresses 2, 0, 1. A new sell with the id S1 is added
  at address 4 and S1 is cancelled. In the second revision the cancel removes the older
  S1 at address 0, and the new order stays on the side and in the index. In the first
  revision the cancel takes both orders off the side, and the index loses the id.
\<close>

theorem C7_counterexample:
  "4 \<notin> set (resting ex_book) \<and>
   sell_orders ex_book = [2, 0, 1] \<and>
   order_map ex_book = [(''S1'', 0), (''S2'', 1), (''S3'', 2)] \<and>
   order_id (ex_store_reuse 4) = ''S1'' \<and>
   sell_orders (fst (snd (cancel_order ex_store_reuse (add_order stable_sort 0 ex_store_reuse ex_book 4 6) ''S1'' 7)))
     = [2, 1, 4] \<and>
   order_map (fst (snd (cancel_order ex_store_reuse (add_order stable_sort 0 ex_store_reuse ex_book 4 6) ''S1'' 7)))
     = [(''S2'', 1), (''S3'', 2), (''S1'', 4)] \<and>
   sell_orders1 ex_book1 = [2, 0, 1] \<and> order_map1 ex_book1 ''S1'' = Some 0 \<and>
   sell_orders1
     (fst (snd (cancel_order1 ex_store_reuse (add_order1 stable_sort ex_store_reuse ex_book1 4 6) ''S1'' 7)))
     = [2, 1] \<and>
   order_map1
     (fst (snd (cancel_order1 ex_store_reuse (add_order1 stable_sort ex_store_reuse ex_book1 4 6) ''S1'' 7)))
     ''S1'' = None"
  by (simp add: cancel_order_def add_order_def Let_def mm_insert_def sort_sell_orders_def
      stable_sort_def sell_before_def equal_range_def resting_def ex_store_reuse_def ex_store_def
      ex_book_def limit_order_def cancel_order1_def add_order1_def ex_book1_def)

lemma set_place_front [simp]: "set (place_front lt x xs) = insert x (set xs)"
  by (induction xs) auto

lemma mset_place_front [simp]: "mset (place_front lt x xs) = add_mset x (mset xs)"
  by (induction xs) auto

lemma sorted_place_front:
  assumes asym: "\<And>a b. lt a b \<Longrightarrow> \<not> lt b a"
    and ntrans: "\<And>a b c. \<not> lt b a \<Longrightarrow> \<not> lt c b \<Longrightarrow> \<not> lt c a"
  shows "sorted_wrt (\<lambda>a b. \<not> lt b a) xs \<Longrightarrow> sorted_wrt (\<lambda>a b. \<not> lt b a) (place_front lt x xs)"
proof (induction xs)
  case Nil
  show ?case by simp
next
  case (Cons y ys)
  show ?case
  proof (cases "lt y x")
    case True
    then have "\<not> lt x y" by (rule asym)
    then show ?thesis using True Cons by auto
  next
    case False
    moreover have "\<not> lt z x" if "z \<in> set ys" for z
      using Cons.prems that False ntrans by auto
    ultimately show ?thesis using Cons.prems by auto
  qed
qed

lemma front_sort_snoc: "front_sort lt (xs @ [x]) = place_front lt x (front_sort lt xs)"
  by (simp add: front_sort_def)

lemma front_sort_contract: "std_sort_contract front_sort"
proof -
  have m: "mset (front_sort lt xs) = mset xs" for lt :: "addr \<Rightarrow> addr \<Rightarrow> bool" and xs
    by (induction xs rule: rev_induct) (simp_all add: front_sort_def)
  have s: "sorted_wrt (\<lambda>a b. \<not> lt b a) (front_sort lt xs)"
    if sw: "strict_weak_order lt" for lt :: "addr \<Rightarrow> addr \<Rightarrow> bool" and xs
  proof (induction xs rule: rev_induct)
    case Nil
    show ?case by (simp add: front_sort_def)
  next
    case (snoc x xs)
    have asym: "\<And>a b. lt a b \<Longrightarrow> \<not> lt b a"
      and ntrans: "\<And>a b c. \<not> lt b a \<Longrightarrow> \<not> lt c b \<Longrightarrow> \<not> lt c a"
      using sw unfolding strict_weak_order_def by blast+
    from sorted_place_front [of lt, OF asym ntrans snoc] show ?case
      by (simp add: front_sort_snoc)
  qed
  show ?thesis
    unfolding std_sort_contract_def using m s by blast
qed

text \<open>
  With a sort that moves tied orders the round trip does not restore the side: the
  sells S1 and S2 tie, a sell S9 is added and cancelled, and S2 now stands before S1.
\<close>

lemma round_trip_permutes_ties:
  "std_sort_contract front_sort \<and> book_inv tie_store_more tie_book \<and>
   sell_orders tie_book = [0, 1] \<and> 2 \<notin> set (resting tie_book) \<and>
   order_id (tie_store_more 2) = ''S9'' \<and> equal_range ''S9'' (order_map tie_book) = [] \<and>
   sell_orders (fst (snd (cancel_order tie_store_more
       (add_order front_sort 0 tie_store_more tie_book 2 6) ''S9'' 7))) = [1, 0] \<and>
   order_map (fst (snd (cancel_order tie_store_more
       (add_order front_sort 0 tie_store_more tie_book 2 6) ''S9'' 7))) = order_map tie_book"
proof -
  have "run_ops stable_sort (tie_store_more, new_book ''T'') [Add 0 0 1, Add 1 0 2] =
      Finished (tie_store_more, tie_book)"
    by (simp add: add_order_def Let_def mm_insert_def sort_sell_orders_def stable_sort_def
        sell_before_def new_book_def resting_def is_filled_def tie_store_more_def tie_store_def
        limit_order_def tie_book_def new_engine_def)
  with run_ops_inv [OF stable_sort_contract book_inv_new, of tie_store_more "''T''"
      "[Add 0 0 1, Add 1 0 2]"]
  have "book_inv tie_store_more tie_book" by blast
  with front_sort_contract show ?thesis
    by (simp add: cancel_order_def add_order_def Let_def mm_insert_def sort_sell_orders_def
        front_sort_def sell_before_def equal_range_def resting_def tie_store_more_def tie_store_def
        tie_book_def limit_order_def new_engine_def)
qed

section \<open>The order of the trades of one call\<close>

lemma match_body_trade:
  assumes c: "crosses h b ord" and ne: "hd (opposite_side h b ord) \<noteq> ord"
    and mb: "match_body h b ord now = (h', b', t)"
  shows "maker_id (side (h ord)) t = order_id (h (hd (opposite_side h b ord)))"
    and "price_t t = price (h (hd (opposite_side h b ord)))"
  using mb ne by (auto simp: match_body_def Let_def maker_id_def)

lemma match_loop_trades:
  assumes "ord \<notin> set (opposite_side h b ord)"
  shows "\<exists>r. match_loop h b ord now trades = Some r \<and>
           (\<exists>new. snd (snd r) = trades @ new \<and>
              length new \<le> length (opposite_side h b ord) \<and>
              (is_filled (h ord) \<longrightarrow> new = []) \<and>
              map (maker_id (side (h ord))) new =
                map (\<lambda>a. order_id (h a)) (take (length new) (opposite_side h b ord)) \<and>
              map price_t new =
                map (\<lambda>a. price (h a)) (take (length new) (opposite_side h b ord)))"
  using assms
proof (rule match_loop_total_induct)
  fix h :: store and b :: OrderBook and trades :: "Trade list"
  assume "\<not> crosses h b ord"
  show "\<exists>new. snd (snd (h, b, trades)) = trades @ new \<and>
              length new \<le> length (opposite_side h b ord) \<and>
              (is_filled (h ord) \<longrightarrow> new = []) \<and>
              map (maker_id (side (h ord))) new =
                map (\<lambda>a. order_id (h a)) (take (length new) (opposite_side h b ord)) \<and>
              map price_t new =
                map (\<lambda>a. price (h a)) (take (length new) (opposite_side h b ord))"
    by simp
next
  fix h b trades h' b' t r
  assume c: "crosses h b ord" and ni: "ord \<notin> set (opposite_side h b ord)"
    and mb: "match_body h b ord now = (h', b', t)"
    and ih: "\<exists>new. snd (snd r) = (trades @ [t]) @ new \<and>
              length new \<le> length (opposite_side h' b' ord) \<and>
              (is_filled (h' ord) \<longrightarrow> new = []) \<and>
              map (maker_id (side (h' ord))) new =
                map (\<lambda>a. order_id (h' a)) (take (length new) (opposite_side h' b' ord)) \<and>
              map price_t new =
                map (\<lambda>a. price (h' a)) (take (length new) (opposite_side h' b' ord))"
  let ?opp = "opposite_side h b ord"
  from c have ne: "?opp \<noteq> []" and nf: "\<not> is_filled (h ord)" by (simp_all add: crosses_def)
  then obtain m rest where opp: "?opp = m # rest" by (cases ?opp) auto
  with ni have mne: "hd ?opp \<noteq> ord" by auto
  note st = match_body_static [OF mb]
  note tr = match_body_trade [OF c mne mb]
  note os = opposite_side_match_body [OF mb]
  from ih obtain new where new: "snd (snd r) = (trades @ [t]) @ new"
    "length new \<le> length (opposite_side h' b' ord)"
    "is_filled (h' ord) \<longrightarrow> new = []"
    "map (maker_id (side (h' ord))) new =
       map (\<lambda>a. order_id (h' a)) (take (length new) (opposite_side h' b' ord))"
    "map price_t new = map (\<lambda>a. price (h' a)) (take (length new) (opposite_side h' b' ord))"
    by blast
  have ids: "(\<lambda>a. order_id (h' a)) = (\<lambda>a. order_id (h a))"
    and prs: "(\<lambda>a. price (h' a)) = (\<lambda>a. price (h a))"
    and sd: "side (h' ord) = side (h ord)"
    using st by (simp_all add: fun_eq_iff)
  show "\<exists>new. snd (snd r) = trades @ new \<and>
              length new \<le> length ?opp \<and>
              (is_filled (h ord) \<longrightarrow> new = []) \<and>
              map (maker_id (side (h ord))) new =
                map (\<lambda>a. order_id (h a)) (take (length new) ?opp) \<and>
              map price_t new = map (\<lambda>a. price (h a)) (take (length new) ?opp)"
  proof (cases "is_filled (h' (hd ?opp))")
    case True
    with os opp have o': "opposite_side h' b' ord = rest" by simp
    show ?thesis
      using new tr nf by (intro exI [of _ "t # new"]) (simp add: o' opp ids prs sd)
  next
    case False
    with match_body_progress [OF c mne mb] have "is_filled (h' ord)" by simp
    with new have "new = []" by simp
    then show ?thesis
      using new tr nf by (intro exI [of _ "[t]"]) (simp add: opp)
  qed
qed

lemma match_order_trades:
  assumes nr: "ord \<notin> set (resting b)"
  shows "\<exists>h' b' ts. match_order h b ord now = Some (h', b', ts) \<and>
           length ts \<le> length (opposite_side h b ord) \<and>
           map (maker_id (side (h ord))) ts =
             map (\<lambda>a. order_id (h a)) (take (length ts) (opposite_side h b ord)) \<and>
           map price_t ts = map (\<lambda>a. price (h a)) (take (length ts) (opposite_side h b ord))"
proof -
  have ni: "ord \<notin> set (opposite_side h b ord)"
    using nr opposite_side_resting by blast
  from match_loop_trades [OF ni, of now "[]"]
  obtain h' b' ts where r: "match_loop h b ord now [] = Some (h', b', ts)"
    "length ts \<le> length (opposite_side h b ord)"
    "map (maker_id (side (h ord))) ts =
       map (\<lambda>a. order_id (h a)) (take (length ts) (opposite_side h b ord))"
    "map price_t ts = map (\<lambda>a. price (h a)) (take (length ts) (opposite_side h b ord))"
    by fastforce
  have "match_order h b ord now = Some (h', b'\<lparr>last_update_time := now\<rparr>, ts)"
    by (simp add: match_order_def r(1))
  with r(2-4) show ?thesis by blast
qed

lemma delivered_foldl_notify:
  "delivered (foldl notify_trade e ts) =
     delivered e @ concat (map (\<lambda>t. map (\<lambda>i. (i, t)) [0..<trade_callbacks e]) ts)"
  by (induction ts arbitrary: e) (simp_all add: notify_trade_def)

lemma filter_eq_upt: "k < n \<Longrightarrow> filter (\<lambda>i. i = k) [0..<n] = [k]"
  by (induction n) (auto simp: less_Suc_eq)

lemma seen_by_concat:
  "k < n \<Longrightarrow> seen_by k (concat (map (\<lambda>t. map (\<lambda>i. (i, t)) [0..<n]) ts)) = ts"
  by (induction ts) (simp_all add: seen_by_def filter_map o_def filter_eq_upt)

lemma book_inv_cong:
  assumes inv: "book_inv h b" and eq: "\<forall>a \<in> set (resting b). h' a = h a"
  shows "book_inv h' b"
proof -
  note d = book_invD [OF inv]
  have bb: "buy_before h' x y = buy_before h x y" and sb: "sell_before h' x y = sell_before h x y"
    if "x \<in> set (resting b)" "y \<in> set (resting b)" for x y
    using that eq by (simp_all add: buy_before_def sell_before_def)
  have 8: "sorted_wrt (\<lambda>x y. \<not> buy_before h' y x) (buy_orders b)"
    using d(8) by (rule sorted_wrt_mono_rel [rotated]) (simp add: bb resting_def)
  have 9: "sorted_wrt (\<lambda>x y. \<not> sell_before h' y x) (sell_orders b)"
    using d(9) by (rule sorted_wrt_mono_rel [rotated]) (simp add: sb resting_def)
  have 4: "\<forall>e \<in> set (order_map b). fst e = order_id (h' (snd e))"
  proof
    fix e assume e: "e \<in> set (order_map b)"
    then have "snd e \<in> set (resting b)" using d(3) by force
    with eq d(4) e show "fst e = order_id (h' (snd e))" by simp
  qed
  have 5: "\<forall>a \<in> set (buy_orders b). side (h' a) = Buy"
    using d(5) eq by (simp add: resting_def)
  have 6: "\<forall>a \<in> set (sell_orders b). side (h' a) \<noteq> Buy"
    using d(6) eq by (simp add: resting_def)
  have 7: "\<forall>a \<in> set (resting b). \<not> is_filled (h' a)"
    using d(7) eq by simp
  show ?thesis
    unfolding book_inv_def by (intro conjI d(1) d(2) d(3) 4 5 6 7 8 9)
qed

lemma irrefl_before: "\<not> buy_before h a a" "\<not> sell_before h a a"
  by (simp_all add: buy_before_def sell_before_def)

lemma sorted_priority:
  assumes s: "sorted_wrt (\<lambda>x y. \<not> lt y x) xs" and irr: "\<And>a. \<not> lt a a"
    and i: "i < length xs" and j: "j < length xs"
  shows "(i < j \<longrightarrow> \<not> lt (xs ! j) (xs ! i)) \<and> (lt (xs ! i) (xs ! j) \<longrightarrow> i < j)"
proof -
  have a: "\<not> lt (xs ! q) (xs ! p)" if "p < q" "q < length xs" for p q
    using sorted_wrt_nth_less [OF s that] .
  show ?thesis
  proof (intro conjI impI)
    assume "i < j" then show "\<not> lt (xs ! j) (xs ! i)" using a j by blast
  next
    assume l: "lt (xs ! i) (xs ! j)"
    show "i < j"
    proof (rule ccontr)
      assume "\<not> i < j"
      then consider "j < i" | "j = i" by linarith
      then show False
      proof cases
        case 1 with a i l show False by blast
      next
        case 2 with l irr show False by simp
      qed
    qed
  qed
qed

text \<open>
  Claim C2 (as amended). Take an engine whose book for the symbol is well-formed and
  whose next new order object does not rest in it, and one call of \<open>place_limit_order\<close>
  or \<open>place_market_order\<close>. The call returns, and the maker of its \<open>i\<close>-th trade is the
  \<open>i\<close>-th order of the contra side as it stood before the call (the trade carries that
  order's id and price). For two trades of the call: if T1 stands before T2 in the
  returned list, then the maker of T2 does not have strictly higher priority than the
  maker of T1; and if the maker of T1 has strictly higher priority than the maker of
  T2, then T1 stands before T2. Every observer is passed exactly the returned trades,
  in the order of the list.
\<close>

theorem C2_trades_follow_priority:
  assumes bk: "order_books e smb = Some book"
    and inv: "book_inv (objects e) book"
    and fresh: "next_addr e \<notin> set (resting book)"
    and pl: "r = place_limit_order srt ia ba e smb oid sd sz prc stamp now \<or>
             r = place_market_order e smb oid sd sz stamp now"
  shows "\<exists>e' trades. r = Some (e', trades) \<and>
           length trades \<le> length (if sd = Buy then sell_orders book else buy_orders book) \<and>
           (\<forall>i < length trades.
              maker_id sd (trades ! i) =
                order_id (objects e ((if sd = Buy then sell_orders book else buy_orders book) ! i)) \<and>
              price_t (trades ! i) =
                price (objects e ((if sd = Buy then sell_orders book else buy_orders book) ! i))) \<and>
           (\<forall>i < length trades. \<forall>j < length trades.
              (i < j \<longrightarrow>
                 \<not> higher_priority (objects e) sd
                     ((if sd = Buy then sell_orders book else buy_orders book) ! j)
                     ((if sd = Buy then sell_orders book else buy_orders book) ! i)) \<and>
              (higher_priority (objects e) sd
                 ((if sd = Buy then sell_orders book else buy_orders book) ! i)
                 ((if sd = Buy then sell_orders book else buy_orders book) ! j) \<longrightarrow> i < j)) \<and>
           (\<forall>k < trade_callbacks e. seen_by k (new_calls e e') = trades)"
proof -
  let ?ord = "next_addr e"
  let ?contra = "if sd = Buy then sell_orders book else buy_orders book"
  define x where "x = (if r = place_limit_order srt ia ba e smb oid sd sz prc stamp now
                       then limit_order oid sd smb sz prc stamp
                       else market_order oid sd smb sz stamp)"
  let ?h = "(objects e)(?ord := x)"
  have sx: "side x = sd" by (simp add: x_def limit_order_def market_order_def)
  have opp: "opposite_side ?h book ?ord = ?contra" by (simp add: opposite_side_def sx)
  have cr: "set ?contra \<subseteq> set (resting book)" by (auto simp: resting_def)
  with fresh have hc: "?h a = objects e a" if "a \<in> set ?contra" for a using that by auto
  from match_order_trades [OF fresh, of ?h now]
  obtain h1 b1 ts where m: "match_order ?h book ?ord now = Some (h1, b1, ts)"
    and len: "length ts \<le> length ?contra"
    and ids: "map (maker_id sd) ts = map (\<lambda>a. order_id (?h a)) (take (length ts) ?contra)"
    and prs: "map price_t ts = map (\<lambda>a. price (?h a)) (take (length ts) ?contra)"
    unfolding opp by (auto simp: sx)
  have "\<exists>e'. r = Some (e', ts) \<and> delivered e' =
          delivered e @ concat (map (\<lambda>t. map (\<lambda>i. (i, t)) [0..<trade_callbacks e]) ts)"
  proof (cases "r = place_limit_order srt ia ba e smb oid sd sz prc stamp now")
    case True
    then have "x = limit_order oid sd smb sz prc stamp" by (simp add: x_def)
    with m True show ?thesis
      by (simp add: place_limit_order_def bk Let_def delivered_foldl_notify)
  next
    case False
    then have "x = market_order oid sd smb sz stamp" by (simp add: x_def)
    moreover from False pl have "r = place_market_order e smb oid sd sz stamp now" by simp
    ultimately show ?thesis using m
      by (simp add: place_market_order_def bk Let_def delivered_foldl_notify)
  qed
  then obtain e' where r: "r = Some (e', ts)"
    and dl: "delivered e' =
          delivered e @ concat (map (\<lambda>t. map (\<lambda>i. (i, t)) [0..<trade_callbacks e]) ts)"
    by blast
  have 1: "maker_id sd (ts ! i) = order_id (objects e (?contra ! i)) \<and>
           price_t (ts ! i) = price (objects e (?contra ! i))" if i: "i < length ts" for i
  proof -
    from i len have ic: "i < length ?contra" by simp
    then have mem: "?contra ! i \<in> set ?contra" by (rule nth_mem)
    have "maker_id sd (ts ! i) = map (maker_id sd) ts ! i" using i by simp
    also have "\<dots> = order_id (?h (?contra ! i))" using i ic by (simp add: ids)
    finally have a: "maker_id sd (ts ! i) = order_id (objects e (?contra ! i))"
      using hc [OF mem] by simp
    have "price_t (ts ! i) = map price_t ts ! i" using i by simp
    also have "\<dots> = price (?h (?contra ! i))" using i ic by (simp add: prs)
    finally have "price_t (ts ! i) = price (objects e (?contra ! i))"
      using hc [OF mem] by simp
    with a show ?thesis by simp
  qed
  have srt: "sorted_wrt (\<lambda>x y. \<not> higher_priority (objects e) sd y x) ?contra"
    using book_invD(8,9) [OF inv] by (simp add: higher_priority_def)
  have irr: "\<not> higher_priority (objects e) sd a a" for a
    by (simp add: higher_priority_def irrefl_before)
  have 2: "(i < j \<longrightarrow> \<not> higher_priority (objects e) sd (?contra ! j) (?contra ! i)) \<and>
           (higher_priority (objects e) sd (?contra ! i) (?contra ! j) \<longrightarrow> i < j)"
    if "i < length ts" "j < length ts" for i j
    using sorted_priority [OF srt irr, of i j] that len by simp
  have 3: "seen_by k (new_calls e e') = ts" if "k < trade_callbacks e" for k
    using that by (simp add: new_calls_def dl seen_by_concat)
  from r len 1 2 3 show ?thesis by blast
qed

lemma tie_engine_eq:
  "tie_engine =
     \<lparr>order_books = [''T'' \<mapsto> tie_book],
      order_id_to_symbol = [(''S1'', ''T''), (''S2'', ''T'')], trade_callbacks = 0,
      objects = tie_store, next_addr = 2, delivered = []\<rparr>"
  by (simp add: tie_engine_def engine_after_def add_order_book_def new_engine_def new_book_def
      tie_book_def tie_store_def eval_defs)

lemma tie_match:
  "match_order (tie_store(2 := limit_order ''B'' Buy ''T'' 200 10 2)) tie_book 2 3 =
     Some (tie_store
             (2 := (limit_order ''B'' Buy ''T'' 200 10 2)\<lparr>filled_size := 200, status := Filled\<rparr>,
              0 := (limit_order ''S1'' Sell ''T'' 100 10 1)\<lparr>filled_size := 100, status := Filled\<rparr>,
              1 := (limit_order ''S2'' Sell ''T'' 100 10 1)\<lparr>filled_size := 100, status := Filled\<rparr>),
           tie_book\<lparr>sell_orders := [], order_map := [], last_update_time := 3\<rparr>,
           [\<lparr>order_id_buy = ''B'', order_id_sell = ''S1'', size_t = 100, price_t = 10, timestamp_t = 3\<rparr>,
            \<lparr>order_id_buy = ''B'', order_id_sell = ''S2'', size_t = 100, price_t = 10, timestamp_t = 3\<rparr>])"
proof -
  let ?h0 = "tie_store(2 := limit_order ''B'' Buy ''T'' 200 10 2)"
  let ?h1 = "tie_store
      (2 := (limit_order ''B'' Buy ''T'' 200 10 2)\<lparr>filled_size := 100, status := PartiallyFilled\<rparr>,
       0 := (limit_order ''S1'' Sell ''T'' 100 10 1)\<lparr>filled_size := 100, status := Filled\<rparr>)"
  let ?b1 = "tie_book\<lparr>sell_orders := [1], order_map := [(''S2'', 1)]\<rparr>"
  let ?h2 = "tie_store
      (2 := (limit_order ''B'' Buy ''T'' 200 10 2)\<lparr>filled_size := 200, status := Filled\<rparr>,
       0 := (limit_order ''S1'' Sell ''T'' 100 10 1)\<lparr>filled_size := 100, status := Filled\<rparr>,
       1 := (limit_order ''S2'' Sell ''T'' 100 10 1)\<lparr>filled_size := 100, status := Filled\<rparr>)"
  let ?b2 = "tie_book\<lparr>sell_orders := [], order_map := []\<rparr>"
  let ?t1 = "\<lparr>order_id_buy = ''B'', order_id_sell = ''S1'', size_t = 100, price_t = 10, timestamp_t = 3\<rparr>"
  let ?t2 = "\<lparr>order_id_buy = ''B'', order_id_sell = ''S2'', size_t = 100, price_t = 10, timestamp_t = 3\<rparr>"
  have c1: "crosses ?h0 tie_book 2"
    by (simp add: crosses_def opposite_side_def price_matches_def is_filled_def tie_store_def
        tie_book_def limit_order_def)
  have m1: "match_body ?h0 tie_book 2 3 = (?h1, ?b1, ?t1)"
    by (simp add: match_body_def Let_def opposite_side_def remaining_size_def fill_eq
        remove_head_def is_filled_def tie_store_def tie_book_def limit_order_def fun_upd_twist)
  have c2: "crosses ?h1 ?b1 2"
    by (simp add: crosses_def opposite_side_def price_matches_def is_filled_def tie_store_def
        tie_book_def limit_order_def)
  have m2: "match_body ?h1 ?b1 2 3 = (?h2, ?b2, ?t2)"
    by (simp add: match_body_def Let_def opposite_side_def remaining_size_def fill_eq
        remove_head_def is_filled_def tie_store_def tie_book_def limit_order_def fun_upd_twist)
  have st: "\<not> crosses ?h2 ?b2 2"
    by (simp add: crosses_def opposite_side_def is_filled_def limit_order_def)
  have "match_loop ?h0 tie_book 2 3 [] = match_loop ?h1 ?b1 2 3 ([] @ [?t1])"
    by (rule match_loop_step [OF c1 m1])
  also have "\<dots> = match_loop ?h2 ?b2 2 3 (([] @ [?t1]) @ [?t2])"
    by (rule match_loop_step [OF c2 m2])
  also have "\<dots> = Some (?h2, ?b2, ([] @ [?t1]) @ [?t2])"
    by (rule match_loop_stop [OF st])
  finally show ?thesis
    by (simp add: match_order_def)
qed

text \<open>
  The claim as stated fails in the direction from position to priority. The sells S1 and
  S2 were placed at one price under the same clock reading; a buy then takes both.
  The trade with S1 stands before the trade with S2, yet S1 does not have strictly
  higher priority than S2: their price and timestamp are equal.
\<close>

theorem C2_counterexample:
  "trades_of tie_result =
     [\<lparr>order_id_buy = ''B'', order_id_sell = ''S1'', size_t = 100, price_t = 10, timestamp_t = 3\<rparr>,
      \<lparr>order_id_buy = ''B'', order_id_sell = ''S2'', size_t = 100, price_t = 10, timestamp_t = 3\<rparr>] \<and>
   sell_orders (book_of tie_engine ''T'') = [0, 1] \<and>
   order_id (objects tie_engine 0) = ''S1'' \<and> order_id (objects tie_engine 1) = ''S2'' \<and>
   price (objects tie_engine 0) = price (objects tie_engine 1) \<and>
   timestamp (objects tie_engine 0) = timestamp (objects tie_engine 1) \<and>
   \<not> higher_priority (objects tie_engine) Buy 0 1"
proof -
  have e: "order_books tie_engine ''T'' = Some tie_book" "objects tie_engine = tie_store"
    "next_addr tie_engine = 2"
    by (simp_all add: tie_engine_eq)
  have "trades_of tie_result =
     [\<lparr>order_id_buy = ''B'', order_id_sell = ''S1'', size_t = 100, price_t = 10, timestamp_t = 3\<rparr>,
      \<lparr>order_id_buy = ''B'', order_id_sell = ''S2'', size_t = 100, price_t = 10, timestamp_t = 3\<rparr>]"
    by (simp add: tie_result_def trades_of_def place_limit_order_def e Let_def tie_match)
  moreover have "sell_orders (book_of tie_engine ''T'') = [0, 1]"
    by (simp add: book_of_def e tie_book_def)
  moreover have "order_id (objects tie_engine 0) = ''S1''" "order_id (objects tie_engine 1) = ''S2''"
    "price (objects tie_engine 0) = price (objects tie_engine 1)"
    "timestamp (objects tie_engine 0) = timestamp (objects tie_engine 1)"
    "\<not> higher_priority (objects tie_engine) Buy 0 1"
    by (simp_all add: e tie_store_def limit_order_def higher_priority_def sell_before_def)
  ultimately show ?thesis by simp
qed

lemma ex_match:
  "match_order (ex_store(4 := limit_order ''B9'' Buy ''T'' 200 10 5)) ex_book 4 9 =
     Some (ex_store
             (4 := (limit_order ''B9'' Buy ''T'' 200 10 5)\<lparr>filled_size := 200, status := Filled\<rparr>,
              2 := (limit_order ''S3'' Sell ''T'' 100 9 3)\<lparr>filled_size := 100, status := Filled\<rparr>,
              0 := (limit_order ''S1'' Sell ''T'' 100 10 1)\<lparr>filled_size := 100, status := Filled\<rparr>),
           ex_book\<lparr>sell_orders := [1], order_map := [(''S2'', 1)], last_update_time := 9\<rparr>,
           [\<lparr>order_id_buy = ''B9'', order_id_sell = ''S3'', size_t = 100, price_t = 9, timestamp_t = 9\<rparr>,
            \<lparr>order_id_buy = ''B9'', order_id_sell = ''S1'', size_t = 100, price_t = 10, timestamp_t = 9\<rparr>])"
proof -
  let ?h0 = "ex_store(4 := limit_order ''B9'' Buy ''T'' 200 10 5)"
  let ?h1 = "ex_store
      (4 := (limit_order ''B9'' Buy ''T'' 200 10 5)\<lparr>filled_size := 100, status := PartiallyFilled\<rparr>,
       2 := (limit_order ''S3'' Sell ''T'' 100 9 3)\<lparr>filled_size := 100, status := Filled\<rparr>)"
  let ?b1 = "ex_book\<lparr>sell_orders := [0, 1], order_map := [(''S1'', 0), (''S2'', 1)]\<rparr>"
  let ?h2 = "ex_store
      (4 := (limit_order ''B9'' Buy ''T'' 200 10 5)\<lparr>filled_size := 200, status := Filled\<rparr>,
       2 := (limit_order ''S3'' Sell ''T'' 100 9 3)\<lparr>filled_size := 100, status := Filled\<rparr>,
       0 := (limit_order ''S1'' Sell ''T'' 100 10 1)\<lparr>filled_size := 100, status := Filled\<rparr>)"
  let ?b2 = "ex_book\<lparr>sell_orders := [1], order_map := [(''S2'', 1)]\<rparr>"
  let ?t1 = "\<lparr>order_id_buy = ''B9'', order_id_sell = ''S3'', size_t = 100, price_t = 9, timestamp_t = 9\<rparr>"
  let ?t2 = "\<lparr>order_id_buy = ''B9'', order_id_sell = ''S1'', size_t = 100, price_t = 10, timestamp_t = 9\<rparr>"
  have c1: "crosses ?h0 ex_book 4"
    by (simp add: crosses_def opposite_side_def price_matches_def is_filled_def ex_store_def
        ex_book_def limit_order_def)
  have m1: "match_body ?h0 ex_book 4 9 = (?h1, ?b1, ?t1)"
    by (simp add: match_body_def Let_def opposite_side_def remaining_size_def fill_eq
        remove_head_def is_filled_def ex_store_def ex_book_def limit_order_def fun_upd_twist)
  have c2: "crosses ?h1 ?b1 4"
    by (simp add: crosses_def opposite_side_def price_matches_def is_filled_def ex_store_def
        ex_book_def limit_order_def)
  have m2: "match_body ?h1 ?b1 4 9 = (?h2, ?b2, ?t2)"
    by (simp add: match_body_def Let_def opposite_side_def remaining_size_def fill_eq
        remove_head_def is_filled_def ex_store_def ex_book_def limit_order_def fun_upd_twist)
  have st: "\<not> crosses ?h2 ?b2 4"
    by (simp add: crosses_def opposite_side_def is_filled_def limit_order_def)
  have "match_loop ?h0 ex_book 4 9 [] = match_loop ?h1 ?b1 4 9 ([] @ [?t1])"
    by (rule match_loop_step [OF c1 m1])
  also have "\<dots> = match_loop ?h2 ?b2 4 9 (([] @ [?t1]) @ [?t2])"
    by (rule match_loop_step [OF c2 m2])
  also have "\<dots> = Some (?h2, ?b2, ([] @ [?t1]) @ [?t2])"
    by (rule match_loop_stop [OF st])
  finally show ?thesis
    by (simp add: match_order_def)
qed

lemma ex_result:
  "trades_of (place_limit_order stable_sort 0 0 ex_engine ''T'' ''B9'' Buy 200 10 5 9) =
       [\<lparr>order_id_buy = ''B9'', order_id_sell = ''S3'', size_t = 100, price_t = 9, timestamp_t = 9\<rparr>,
        \<lparr>order_id_buy = ''B9'', order_id_sell = ''S1'', size_t = 100, price_t = 10, timestamp_t = 9\<rparr>]"
proof -
  have e: "order_books ex_engine ''T'' = Some ex_book" "objects ex_engine = ex_store"
    "next_addr ex_engine = 4"
    by (simp_all add: ex_engine_def)
  show ?thesis
    by (simp add: trades_of_def place_limit_order_def e Let_def ex_match)
qed

theorem C2_witness:
  "order_books ex_engine ''T'' = Some ex_book \<and>
   book_inv (objects ex_engine) ex_book \<and>
   next_addr ex_engine \<notin> set (resting ex_book) \<and>
   sell_orders ex_book = [2, 0, 1] \<and>
   (\<exists>e'. place_limit_order stable_sort 0 0 ex_engine ''T'' ''B9'' Buy 200 10 5 9 =
       Some (e', [\<lparr>order_id_buy = ''B9'', order_id_sell = ''S3'', size_t = 100, price_t = 9,
                   timestamp_t = 9\<rparr>,
                  \<lparr>order_id_buy = ''B9'', order_id_sell = ''S1'', size_t = 100, price_t = 10,
                   timestamp_t = 9\<rparr>]) \<and>
       seen_by 0 (new_calls ex_engine e') =
         [\<lparr>order_id_buy = ''B9'', order_id_sell = ''S3'', size_t = 100, price_t = 9,
           timestamp_t = 9\<rparr>,
          \<lparr>order_id_buy = ''B9'', order_id_sell = ''S1'', size_t = 100, price_t = 10,
           timestamp_t = 9\<rparr>]) \<and>
   \<not> higher_priority (objects ex_engine) Buy 0 2 \<and>
   higher_priority (objects ex_engine) Buy 2 0"
proof -
  let ?ts = "[\<lparr>order_id_buy = ''B9'', order_id_sell = ''S3'', size_t = 100, price_t = 9,
                timestamp_t = 9\<rparr>,
              \<lparr>order_id_buy = ''B9'', order_id_sell = ''S1'', size_t = 100, price_t = 10,
                timestamp_t = 9\<rparr>]"
  have bk: "order_books ex_engine ''T'' = Some ex_book"
    and ob: "objects ex_engine = ex_store" and cb: "trade_callbacks ex_engine = 1"
    by (simp_all add: ex_engine_def)
  have inv: "book_inv (objects ex_engine) ex_book"
    using ex_book_inv by (simp add: ob)
  have fresh: "next_addr ex_engine \<notin> set (resting ex_book)"
    by (simp add: ex_engine_def ex_book_def resting_def)
  have so: "sell_orders ex_book = [2, 0, 1]" by (simp add: ex_book_def)
  from C2_trades_follow_priority [OF bk inv fresh disjI1 [OF refl],
      of stable_sort 0 0 "''B9''" Buy 200 10 5 9]
  obtain e' trades where r: "place_limit_order stable_sort 0 0 ex_engine ''T'' ''B9'' Buy 200 10 5 9 = Some (e', trades)"
    and pr: "\<forall>i < length trades. \<forall>j < length trades.
              (i < j \<longrightarrow> \<not> higher_priority (objects ex_engine) Buy
                     (sell_orders ex_book ! j) (sell_orders ex_book ! i)) \<and>
              (higher_priority (objects ex_engine) Buy
                 (sell_orders ex_book ! i) (sell_orders ex_book ! j) \<longrightarrow> i < j)"
    and sb: "\<forall>k < trade_callbacks ex_engine. seen_by k (new_calls ex_engine e') = trades"
    by auto
  from r ex_result have t: "trades = ?ts" by (simp add: trades_of_def)
  from sb cb t have s0: "seen_by 0 (new_calls ex_engine e') = ?ts" by simp
  from pr [rule_format, of 0 1] t so
  have p1: "\<not> higher_priority (objects ex_engine) Buy 0 2" by simp
  have p2: "higher_priority (objects ex_engine) Buy 2 0"
    by (simp add: higher_priority_def sell_before_def ob ex_store_def limit_order_def)
  from r t s0 have "\<exists>e'. place_limit_order stable_sort 0 0 ex_engine ''T'' ''B9'' Buy 200 10 5 9 = Some (e', ?ts) \<and>
       seen_by 0 (new_calls ex_engine e') = ?ts" by blast
  with bk inv fresh so p1 p2 show ?thesis by blast
qed

section \<open>Every engine a caller reaches is well-formed\<close>

lemma engine_invD:
  assumes "engine_inv e" and "order_books e smb = Some book"
  shows "book_inv (objects e) book" and "\<forall>a \<in> set (resting book). a < next_addr e"
    and "\<And>s b. s \<noteq> smb \<Longrightarrow> order_books e s = Some b \<Longrightarrow> set (resting b) \<inter> set (resting book) = {}"
  using assms unfolding engine_inv_def by blast+

lemma engine_invI:
  assumes "\<And>smb book. order_books e smb = Some book \<Longrightarrow> book_inv (objects e) book"
    and "\<And>smb book a. order_books e smb = Some book \<Longrightarrow> a \<in> set (resting book) \<Longrightarrow> a < next_addr e"
    and "\<And>s1 s2 b1 b2. s1 \<noteq> s2 \<Longrightarrow> order_books e s1 = Some b1 \<Longrightarrow> order_books e s2 = Some b2 \<Longrightarrow>
           set (resting b1) \<inter> set (resting b2) = {}"
  shows "engine_inv e"
  unfolding engine_inv_def using assms by blast

lemma engine_inv_new: "engine_inv new_engine"
  by (simp add: engine_inv_def new_engine_def)

lemma resting_new_book [simp]: "resting (new_book smb) = []"
  by (simp add: resting_def new_book_def)

lemma engine_inv_add_book: "engine_inv e \<Longrightarrow> engine_inv (add_order_book e smb)"
  unfolding engine_inv_def add_order_book_def
  by (auto split: if_splits)

lemma engine_inv_register: "engine_inv e \<Longrightarrow> engine_inv (register_trade_callback e)"
  by (simp add: engine_inv_def register_trade_callback_def)

text \<open>One book of the engine is replaced, and the store changes inside that book only.\<close>

lemma engine_inv_update:
  assumes inv: "engine_inv e" and bk: "order_books e smb = Some book"
    and b': "book_inv h' book'"
    and sub: "set (resting book') \<subseteq> set (resting book) \<union> {a. next_addr e \<le> a \<and> a < n}"
    and n: "next_addr e \<le> n"
    and fr: "\<forall>a. a < next_addr e \<and> a \<notin> set (resting book) \<longrightarrow> h' a = objects e a"
    and e': "order_books e' = (order_books e)(smb \<mapsto> book')" "objects e' = h'" "next_addr e' = n"
  shows "engine_inv e'"
proof (rule engine_invI)
  fix s b assume s: "order_books e' s = Some b"
  show "book_inv (objects e') b"
  proof (cases "s = smb")
    case True
    with s e' b' show ?thesis by simp
  next
    case False
    with s e' have ob: "order_books e s = Some b" by simp
    note d = engine_invD [OF inv bk]
    note d' = engine_invD [OF inv ob]
    have "\<forall>a \<in> set (resting b). h' a = objects e a"
    proof
      fix a assume a: "a \<in> set (resting b)"
      with d'(2) have "a < next_addr e" by blast
      moreover from d(3) [OF False ob] a have "a \<notin> set (resting book)" by blast
      ultimately show "h' a = objects e a" using fr by blast
    qed
    from book_inv_cong [OF d'(1) this] show ?thesis by (simp add: e')
  qed
next
  fix s b a assume s: "order_books e' s = Some b" and a: "a \<in> set (resting b)"
  show "a < next_addr e'"
  proof (cases "s = smb")
    case True
    with s e' have "b = book'" by simp
    with a sub have "a \<in> set (resting book) \<or> (next_addr e \<le> a \<and> a < n)" by auto
    with engine_invD(2) [OF inv bk] n have "a < n" by fastforce
    then show ?thesis by (simp add: e')
  next
    case False
    with s e' have "order_books e s = Some b" by simp
    from engine_invD(2) [OF inv this] a n show ?thesis by (auto simp: e')
  qed
next
  fix s1 s2 b1 b2
  assume ne: "s1 \<noteq> s2" and s1: "order_books e' s1 = Some b1" and s2: "order_books e' s2 = Some b2"
  have key: "set (resting b) \<inter> set (resting book') = {}"
    if "s \<noteq> smb" "order_books e s = Some b" for s b
  proof -
    from engine_invD(3) [OF inv bk that] have "set (resting b) \<inter> set (resting book) = {}" .
    moreover from engine_invD(2) [OF inv that(2)] have "\<forall>a \<in> set (resting b). a < next_addr e" .
    ultimately show ?thesis using sub by fastforce
  qed
  show "set (resting b1) \<inter> set (resting b2) = {}"
  proof (cases "s1 = smb")
    case True
    with ne s1 s2 e' have "b1 = book'" "order_books e s2 = Some b2" "s2 \<noteq> smb" by auto
    with key [of s2 b2] show ?thesis by auto
  next
    case False
    with s1 e' have o1: "order_books e s1 = Some b1" by simp
    show ?thesis
    proof (cases "s2 = smb")
      case True
      with s2 e' have "b2 = book'" by simp
      with key [OF False o1] show ?thesis by simp
    next
      case f2: False
      with s2 e' have "order_books e s2 = Some b2" by simp
      with engine_invD(3) [OF inv this _ o1] ne show ?thesis by auto
    qed
  qed
qed

lemma engine_match:
  assumes inv: "engine_inv e" and bk: "order_books e smb = Some book"
  shows "\<exists>h1 b1 ts. match_order ((objects e)(next_addr e := x)) book (next_addr e) now = Some (h1, b1, ts) \<and>
           book_inv h1 b1 \<and> next_addr e \<notin> set (resting b1) \<and>
           set (resting b1) \<subseteq> set (resting book) \<and>
           (\<forall>a. a < next_addr e \<and> a \<notin> set (resting book) \<longrightarrow> h1 a = objects e a)"
proof -
  let ?ord = "next_addr e"
  let ?h = "(objects e)(?ord := x)"
  note d = engine_invD(1,2) [OF inv bk]
  from d(2) have fresh: "?ord \<notin> set (resting book)" by auto
  then have "\<forall>a \<in> set (resting book). ?h a = objects e a" by auto
  from book_inv_cong [OF d(1) this] have inv0: "book_inv ?h book" .
  from match_order_inv [OF inv0 fresh, of now]
  obtain h1 b1 ts where m: "match_order ?h book ?ord now = Some (h1, b1, ts)"
    and r: "book_inv h1 b1" "?ord \<notin> set (resting b1)" "set (resting b1) \<subseteq> set (resting book)"
      "\<forall>a. a \<noteq> ?ord \<and> a \<notin> set (resting book) \<longrightarrow> h1 a = ?h a"
    by blast
  from r(4) have "\<forall>a. a < ?ord \<and> a \<notin> set (resting book) \<longrightarrow> h1 a = objects e a" by auto
  with m r(1-3) show ?thesis by blast
qed

lemma engine_inv_place_limit:
  assumes srt: "std_sort_contract srt" and inv: "engine_inv e"
  shows "\<exists>e' ts. place_limit_order srt ia ba e smb oid sd sz prc stamp now = Some (e', ts) \<and> engine_inv e'"
proof (cases "order_books e smb")
  case None
  then show ?thesis using inv by (simp add: place_limit_order_def)
next
  case (Some book)
  let ?ord = "next_addr e"
  from engine_match [OF inv Some, of "limit_order oid sd smb sz prc stamp" now]
  obtain h1 b1 ts where
    m: "match_order ((objects e)(?ord := limit_order oid sd smb sz prc stamp)) book ?ord now =
          Some (h1, b1, ts)"
    and r: "book_inv h1 b1" "?ord \<notin> set (resting b1)" "set (resting b1) \<subseteq> set (resting book)"
      "\<forall>a. a < ?ord \<and> a \<notin> set (resting book) \<longrightarrow> h1 a = objects e a"
    by blast
  let ?b2 = "if \<not> is_filled (h1 ?ord) then add_order srt ba h1 b1 ?ord now else b1"
  have "\<exists>e'. place_limit_order srt ia ba e smb oid sd sz prc stamp now = Some (e', ts) \<and>
          order_books e' = (order_books e)(smb \<mapsto> ?b2) \<and> objects e' = h1 \<and>
          next_addr e' = Suc ?ord"
    by (simp add: place_limit_order_def Some Let_def m)
  then obtain e' where p: "place_limit_order srt ia ba e smb oid sd sz prc stamp now = Some (e', ts)"
    and e': "order_books e' = (order_books e)(smb \<mapsto> ?b2)" "objects e' = h1"
      "next_addr e' = Suc ?ord"
    by blast
  have b2: "book_inv h1 ?b2"
    using r(1,2) add_order_inv [OF srt, of h1 b1 ?ord ba now] by simp
  have sub: "set (resting ?b2) \<subseteq> set (resting book) \<union> {a. ?ord \<le> a \<and> a < Suc ?ord}"
    using r(3) by (auto simp: resting_add_order [OF srt])
  from engine_inv_update [OF inv Some b2 sub _ r(4) e'] have "engine_inv e'" by simp
  with p show ?thesis by blast
qed

lemma engine_inv_place_market:
  assumes inv: "engine_inv e"
  shows "\<exists>e' ts. place_market_order e smb oid sd sz stamp now = Some (e', ts) \<and> engine_inv e'"
proof (cases "order_books e smb")
  case None
  then show ?thesis using inv by (simp add: place_market_order_def)
next
  case (Some book)
  let ?ord = "next_addr e"
  from engine_match [OF inv Some, of "market_order oid sd smb sz stamp" now]
  obtain h1 b1 ts where
    m: "match_order ((objects e)(?ord := market_order oid sd smb sz stamp)) book ?ord now =
          Some (h1, b1, ts)"
    and r: "book_inv h1 b1" "?ord \<notin> set (resting b1)" "set (resting b1) \<subseteq> set (resting book)"
      "\<forall>a. a < ?ord \<and> a \<notin> set (resting book) \<longrightarrow> h1 a = objects e a"
    by blast
  have "\<exists>e'. place_market_order e smb oid sd sz stamp now = Some (e', ts) \<and>
          order_books e' = (order_books e)(smb \<mapsto> b1) \<and> objects e' = h1 \<and>
          next_addr e' = Suc ?ord"
    by (simp add: place_market_order_def Some Let_def m)
  then obtain e' where p: "place_market_order e smb oid sd sz stamp now = Some (e', ts)"
    and e': "order_books e' = (order_books e)(smb \<mapsto> b1)" "objects e' = h1"
      "next_addr e' = Suc ?ord"
    by blast
  have sub: "set (resting b1) \<subseteq> set (resting book) \<union> {a. ?ord \<le> a \<and> a < Suc ?ord}"
    using r(3) by auto
  from engine_inv_update [OF inv Some r(1) sub _ r(4) e'] have "engine_inv e'" by simp
  with p show ?thesis by blast
qed

lemma engine_inv_cancel:
  assumes inv: "engine_inv e"
  shows "engine_inv (fst (engine_cancel_order e oid now))"
proof (cases "equal_range oid (order_id_to_symbol e)")
  case Nil
  then show ?thesis using inv by (simp add: engine_cancel_order_def)
next
  case (Cons smb rest)
  show ?thesis
  proof (cases "order_books e smb")
    case None
    then show ?thesis using inv Cons by (simp add: engine_cancel_order_def)
  next
    case (Some book)
    note d = engine_invD(1) [OF inv Some]
    show ?thesis
    proof (cases "equal_range oid (order_map book)")
      case Nil
      from engine_cancel_order_stale [OF Cons Some Nil] inv show ?thesis by simp
    next
      case c: (Cons ord more)
      note p = cancel_order_present [OF d c]
      let ?h = "(objects e)(ord := (objects e ord)\<lparr>status := Cancelled\<rparr>)"
      let ?b = "(book_remove book oid ord)\<lparr>last_update_time := now\<rparr>"
      have b': "book_inv ?h ?b" using cancel_order_inv [OF d p(1)] .
      have sub: "set (resting ?b) \<subseteq> set (resting book) \<union> {a. next_addr e \<le> a \<and> a < next_addr e}"
        by (auto simp: resting_def book_remove_def dest: notin_set_remove1)
      have fr: "\<forall>a. a < next_addr e \<and> a \<notin> set (resting book) \<longrightarrow> ?h a = objects e a"
        using p(2) by auto
      let ?e' = "fst (engine_cancel_order e oid now)"
      have e': "order_books ?e' = (order_books e)(smb \<mapsto> ?b)" "objects ?e' = ?h"
        "next_addr ?e' = next_addr e"
        by (simp_all add: engine_cancel_order_def Cons Some p(1) [of now] Let_def)
      from engine_inv_update [OF inv Some b' sub _ fr e'] show ?thesis by simp
    qed
  qed
qed

lemma run_engine_inv:
  "std_sort_contract srt \<Longrightarrow> engine_inv e \<Longrightarrow>
   \<exists>e'. run_engine srt e ops = Some e' \<and> engine_inv e'"
proof (induction ops arbitrary: e)
  case Nil
  then show ?case by simp
next
  case (Cons x xs)
  have "\<exists>e1. apply_engine_op srt e x = Some e1 \<and> engine_inv e1"
  proof (cases x)
    case (AddBook smb)
    then show ?thesis using engine_inv_add_book [OF Cons.prems(2)] by simp
  next
    case Register
    then show ?thesis using engine_inv_register [OF Cons.prems(2)] by simp
  next
    case (PlaceLimit smb oid sd sz prc ts now ia ba)
    from engine_inv_place_limit [OF Cons.prems, of ia ba smb oid sd sz prc ts now]
    show ?thesis by (auto simp: PlaceLimit)
  next
    case (PlaceMarket smb oid sd sz ts now)
    from engine_inv_place_market [OF Cons.prems(2), of smb oid sd sz ts now]
    show ?thesis by (auto simp: PlaceMarket)
  next
    case (CancelOrder oid now)
    then show ?thesis using engine_inv_cancel [OF Cons.prems(2)] by simp
  qed
  then obtain e1 where e1: "apply_engine_op srt e x = Some e1" "engine_inv e1" by blast
  from Cons.IH [OF Cons.prems(1) e1(2)] e1(1) show ?case by simp
qed

text \<open>
  Every engine that a caller reaches from the empty engine is well-formed, and every
  call on the way returns, with every sort that meets the contract of \<^verbatim>\<open>std::sort\<close>
  and wherever the indexes link their entries. The hypotheses of the theorems on \<open>place_limit_order\<close> and
  \<open>place_market_order\<close> hold in such an engine.
\<close>

lemma reachable_engine:
  "std_sort_contract srt \<Longrightarrow> \<exists>e. run_engine srt new_engine ops = Some e \<and> engine_inv e"
  by (rule run_engine_inv [OF _ engine_inv_new])

lemma engine_inv_fresh:
  "engine_inv e \<Longrightarrow> order_books e smb = Some book \<Longrightarrow>
   book_inv (objects e) book \<and> next_addr e \<notin> set (resting book)"
  using engine_invD(1,2) [of e smb book] by auto

end
